theory Spec2Isabelle
  imports Main "HOL-Library.Multiset"
begin

section \<open>JavaScript values as the accessor code sees them\<close>

text \<open>
  The accessor compiler of the \<^verbatim>\<open>AccessStep\<close> module works on arbitrary JavaScript values: the
  value a step receives, the items of a path, and the fallback. The source's own
  documentation restricts its use to JSON-like data whose objects have null prototypes,
  and that is the data modelled here: \<^verbatim>\<open>undefined\<close>, \<^verbatim>\<open>null\<close>, booleans, numbers,
  strings, symbols, arrays and null-prototype objects. Arrays and objects carry a
  reference number, since \<^verbatim>\<open>===\<close> compares them by identity.

  A number is finite or one of the three non-finite values; the finite ones are modelled
  as integers (the indices a path holds), written in decimal when they become strings
  (JavaScript changes to exponent notation from \<open>10\<^sup>2\<^sup>1\<close> on). Strings are lists of
  8-bit characters.
\<close>

datatype jsnum = Fin int | NaN | PosInf | NegInf

datatype propkey = KStr string | KSym nat

datatype jsval =
    Undefined
  | Null
  | Bool bool
  | Num jsnum
  | Str string
  | Sym nat
  | Arr nat "jsval list"
  | Obj nat "(propkey \<times> jsval) list"

datatype error =
    InvalidPathItem jsval "jsval list"
  | TypeError
  | GetNotString
  | NotReplaced
  | StepDuplicated nat
  | UnsupportedVersion

text \<open>\<^verbatim>\<open>typeof x\<close>.\<close>

fun typeof :: "jsval \<Rightarrow> string" where
  "typeof Undefined = ''undefined''"
| "typeof Null = ''object''"
| "typeof (Bool b) = ''boolean''"
| "typeof (Num n) = ''number''"
| "typeof (Str s) = ''string''"
| "typeof (Sym k) = ''symbol''"
| "typeof (Arr r xs) = ''object''"
| "typeof (Obj r kvs) = ''object''"

text \<open>\<^verbatim>\<open>x == null\<close>: true of \<^verbatim>\<open>null\<close> and of \<^verbatim>\<open>undefined\<close>, and of nothing else.\<close>

fun nullish :: "jsval \<Rightarrow> bool" where
  "nullish Undefined = True"
| "nullish Null = True"
| "nullish v = False"

text \<open>\<^verbatim>\<open>Number.isFinite(x)\<close>: false of every value that is not a number.\<close>

fun isFinite :: "jsval \<Rightarrow> bool" where
  "isFinite (Num (Fin n)) = True"
| "isFinite v = False"

text \<open>\<^verbatim>\<open>a ?? b\<close>.\<close>

definition coalesce :: "jsval \<Rightarrow> jsval \<Rightarrow> jsval" where
  "coalesce a b = (if nullish a then b else a)"

text \<open>
  \<^verbatim>\<open>a === b\<close>: primitives by value (\<^verbatim>\<open>NaN\<close> equals nothing, itself included),
  arrays and objects by reference.
\<close>

fun strict_eq :: "jsval \<Rightarrow> jsval \<Rightarrow> bool" where
  "strict_eq (Num NaN) b = False"
| "strict_eq a (Num NaN) = False"
| "strict_eq (Arr r xs) (Arr r' ys) = (r = r')"
| "strict_eq (Obj r xs) (Obj r' ys) = (r = r')"
| "strict_eq a b = (a = b)"

text \<open>\<^verbatim>\<open>s.includes(sub)\<close> on strings.\<close>

fun starts_with :: "string \<Rightarrow> string \<Rightarrow> bool" where
  "starts_with s [] = True"
| "starts_with [] (c # cs) = False"
| "starts_with (x # xs) (c # cs) = (x = c \<and> starts_with xs cs)"

fun js_includes :: "string \<Rightarrow> string \<Rightarrow> bool" where
  "js_includes [] sub = (sub = [])"
| "js_includes (x # xs) sub = (starts_with (x # xs) sub \<or> js_includes xs sub)"

subsection \<open>Numbers as strings, values as property keys\<close>

definition digit_char :: "nat \<Rightarrow> char" where
  "digit_char d = char_of (48 + d)"

fun show_nat :: "nat \<Rightarrow> string" where
  "show_nat n = (if n < 10 then [digit_char n] else show_nat (n div 10) @ [digit_char (n mod 10)])"

declare show_nat.simps [simp del]

definition show_int :: "int \<Rightarrow> string" where
  "show_int i = (if i < 0 then CHR ''-'' # show_nat (nat (- i)) else show_nat (nat i))"

fun num_to_string :: "jsnum \<Rightarrow> string" where
  "num_to_string (Fin i) = show_int i"
| "num_to_string NaN = ''NaN''"
| "num_to_string PosInf = ''Infinity''"
| "num_to_string NegInf = ''-Infinity''"

text \<open>
  The key a value names in \<^verbatim>\<open>obj[x]\<close>: a symbol is its own key, every other primitive
  its string. An array or an object has no key here (a null-prototype object cannot be
  converted to a primitive: a \<^verbatim>\<open>TypeError\<close>).
\<close>

fun to_key :: "jsval \<Rightarrow> propkey option" where
  "to_key Undefined = Some (KStr ''undefined'')"
| "to_key Null = Some (KStr ''null'')"
| "to_key (Bool b) = Some (KStr (if b then ''true'' else ''false''))"
| "to_key (Num n) = Some (KStr (num_to_string n))"
| "to_key (Str s) = Some (KStr s)"
| "to_key (Sym k) = Some (KSym k)"
| "to_key (Arr r xs) = None"
| "to_key (Obj r kvs) = None"

text \<open>
  The own properties of a value: those of an object as it lists them; the elements of an
  array under their indices, and its \<^verbatim>\<open>length\<close>; the characters of a string likewise.
  Properties inherited from a prototype are outside the model.
\<close>

definition indexed :: "jsval list \<Rightarrow> (propkey \<times> jsval) list" where
  "indexed xs =
     zip (map (\<lambda>i. KStr (show_nat i)) [0 ..< length xs]) xs
       @ [(KStr ''length'', Num (Fin (int (length xs))))]"

fun own_props :: "jsval \<Rightarrow> (propkey \<times> jsval) list" where
  "own_props (Obj r kvs) = kvs"
| "own_props (Arr r xs) = indexed xs"
| "own_props (Str s) = indexed (map (\<lambda>c. Str [c]) s)"
| "own_props v = []"

text \<open>
  \<^verbatim>\<open>v[k]\<close>: a \<^verbatim>\<open>TypeError\<close> on \<^verbatim>\<open>null\<close> and \<^verbatim>\<open>undefined\<close>, otherwise the property,
  \<^verbatim>\<open>undefined\<close> when the value has none under that key.
\<close>

definition get_prop :: "jsval \<Rightarrow> jsval \<Rightarrow> error + jsval" where
  "get_prop v k =
     (if nullish v then Inl TypeError
      else case to_key k of
        None \<Rightarrow> Inl TypeError
      | Some key \<Rightarrow>
          (case map_of (own_props v) key of
             None \<Rightarrow> Inr Undefined
           | Some x \<Rightarrow> Inr x))"

text \<open>\<^verbatim>\<open>v?.[k]\<close>: \<^verbatim>\<open>undefined\<close> when \<^verbatim>\<open>v\<close> is \<^verbatim>\<open>null\<close> or \<^verbatim>\<open>undefined\<close>.\<close>

definition opt_get :: "jsval \<Rightarrow> jsval \<Rightarrow> error + jsval" where
  "opt_get v k = (if nullish v then Inr Undefined else get_prop v k)"


section \<open>Tier selection\<close>

text \<open>
  The mode of \<^verbatim>\<open>constructDestructureFunction\<close>: 0 is slow, 1 is middle, 2 is turbo.
\<close>

datatype mode = Slow | Middle | Turbo

text \<open>
  The validation loop over the path, \<^verbatim>\<open>for (let i = 0; i < n; i++)\<close>, with the mode as
  the loop's state. The first argument is the whole path, for the error message.
\<close>

fun scan_path :: "jsval list \<Rightarrow> jsval list \<Rightarrow> mode \<Rightarrow> error + mode" where
  "scan_path path [] mode = Inr mode"
| "scan_path path (pathItem # rest) mode =
     (let t = typeof pathItem in
      if t = ''symbol'' then
        scan_path path rest (if mode = Turbo then Middle else mode)
      else if t = ''string'' then
        scan_path path rest (if js_includes t ''|'' \<and> mode = Turbo then Middle else mode)
      else if t = ''number'' then
        scan_path path rest (if \<not> isFinite pathItem then Slow else mode)
      else if nullish pathItem then
        scan_path path rest Slow
      else Inl (InvalidPathItem pathItem path))"

definition initial_mode :: "nat \<Rightarrow> mode" where
  "initial_mode n = (if n > 50 then Slow else if n > 5 then Middle else Turbo)"

definition select_mode :: "jsval list \<Rightarrow> error + mode" where
  "select_mode path = scan_path path path (initial_mode (length path))"

section \<open>Generated code\<close>

text \<open>
  The middle and turbo tiers build JavaScript source with the \<^verbatim>\<open>tamedevil\<close> template
  library and compile it. The expressions they build are of this small language: the
  accessor's parameter \<^verbatim>\<open>value\<close>, a parameter \<^verbatim>\<open>p0, p1, ...\<close> of the factory,
  an embedded value, \<^verbatim>\<open>e[k]\<close>, \<^verbatim>\<open>e?.[k]\<close> and \<^verbatim>\<open>a ?? b\<close>.
\<close>

datatype texpr =
    Value
  | Param nat
  | Lit jsval
  | Get texpr texpr
  | OptGet texpr texpr
  | Coalesce texpr texpr

text \<open>
  Evaluation of an expression, given the factory's arguments and the accessor's
  \<^verbatim>\<open>value\<close>. A parameter with no argument is \<^verbatim>\<open>undefined\<close>.
\<close>

fun eval :: "jsval list \<Rightarrow> jsval \<Rightarrow> texpr \<Rightarrow> error + jsval" where
  "eval args v Value = Inr v"
| "eval args v (Param i) = Inr (if i < length args then args ! i else Undefined)"
| "eval args v (Lit x) = Inr x"
| "eval args v (Get e k) =
     (case eval args v e of
        Inl err \<Rightarrow> Inl err
      | Inr obj \<Rightarrow> (case eval args v k of Inl err \<Rightarrow> Inl err | Inr key \<Rightarrow> get_prop obj key))"
| "eval args v (OptGet e k) =
     (case eval args v e of
        Inl err \<Rightarrow> Inl err
      | Inr obj \<Rightarrow>
          if nullish obj then Inr Undefined
          else (case eval args v k of Inl err \<Rightarrow> Inl err | Inr key \<Rightarrow> get_prop obj key))"
| "eval args v (Coalesce a b) =
     (case eval args v a of
        Inl err \<Rightarrow> Inl err
      | Inr x \<Rightarrow> if nullish x then eval args v b else Inr x)"

text \<open>
  \<^verbatim>\<open>te.get(pathItem)\<close> belongs to the template library, which is not among the sources.
  It writes one member access for the path item, with the item embedded as a literal.
  The comment at its call reads \<^verbatim>\<open>?.blah?.bog?.["!!!"]?.[0]\<close>, an optional access; a
  library that writes the plain access \<^verbatim>\<open>.blah.bog["!!!"][0]\<close> fits the call as well.
  Which of the two it writes is a parameter of the model, and what is proved of the turbo
  tier's generated function is proved for both.
\<close>

datatype te_access = PlainAccess | OptionalAccess

fun te_get :: "te_access \<Rightarrow> jsval \<Rightarrow> texpr \<Rightarrow> texpr" where
  "te_get PlainAccess pathItem e = Get e (Lit pathItem)"
| "te_get OptionalAccess pathItem e = OptGet e (Lit pathItem)"

text \<open>\<^verbatim>\<open>value${te.join(parts, "")}\<close>: the parts applied to \<^verbatim>\<open>value\<close>, left to right.\<close>

definition join_onto :: "texpr \<Rightarrow> (texpr \<Rightarrow> texpr) list \<Rightarrow> texpr" where
  "join_onto e parts = foldl (\<lambda>acc part. part acc) e parts"

text \<open>
  The turbo tier's source for a path that has neither one nor two items:
  \<^verbatim>\<open>(function quicklyExtractValueAtPath(extra, value) { return (value<expression>) ?? <fallback>; })\<close>,
  the \<^verbatim>\<open>??\<close> part only when there is a fallback.
\<close>

definition turbo_source :: "te_access \<Rightarrow> jsval list \<Rightarrow> jsval \<Rightarrow> texpr" where
  "turbo_source tg path fallback =
     (let jitParts = map (te_get tg) path;
          expression = join_onto Value jitParts
      in if fallback \<noteq> Undefined then Coalesce expression (Lit fallback) else expression)"

text \<open>
  The middle tier's source, for \<open>n\<close> path items:
  \<^verbatim>\<open>function (p0, ..., p{n-1}) { return (_meta, value) => value[p0]...[p{n-1}]; }\<close>.
  It is built from \<open>n\<close> alone.
\<close>

definition factory_body :: "nat \<Rightarrow> texpr" where
  "factory_body n = join_onto Value (map (\<lambda>i e. Get e (Param i)) [0 ..< n])"

section \<open>Accessor functions\<close>

text \<open>
  A compiled factory is \<^verbatim>\<open>function (p0, ..., p{n-1}) { return (_meta, value) => body; }\<close>.
  An accessor is one of the closures the source creates: the slow walker over a path, the
  four closures of \<^verbatim>\<open>access1\<close> and \<^verbatim>\<open>access2\<close>, the function compiled from the turbo
  tier's source, and the arrow function a factory returns for its arguments. (The
  \<^verbatim>\<open>expressionSymbol\<close> property the turbo tier attaches to its function is for the output
  plan's use and is not modelled.)
\<close>

datatype factory = Factory nat texpr

datatype accessor =
    SlowlyExtractValueAtPath "jsval list" jsval
  | QuicklyAccessKey1WithFallback jsval jsval
  | QuicklyAccessKey1 jsval
  | QuicklyAccessKey2WithFallback jsval jsval jsval
  | QuicklyAccessKey2 jsval jsval
  | QuicklyExtractValueAtPath texpr
  | FactoryClosure factory "jsval list"

text \<open>
  The slow walker's loop:
  \<^verbatim>\<open>for (let i = 0, l = path.length; i < l && current != null; i++) current = current[path[i]]\<close>.
\<close>

fun slow_loop :: "jsval list \<Rightarrow> jsval \<Rightarrow> error + jsval" where
  "slow_loop [] current = Inr current"
| "slow_loop (pathItem # rest) current =
     (if nullish current then Inr current
      else case get_prop current pathItem of
        Inl err \<Rightarrow> Inl err
      | Inr next \<Rightarrow> slow_loop rest next)"

text \<open>Calling an accessor on a value (its first argument, the execution extra, is unused).\<close>

fun call :: "accessor \<Rightarrow> jsval \<Rightarrow> error + jsval" where
  "call (SlowlyExtractValueAtPath path fallback) v =
     (case slow_loop path v of Inl err \<Rightarrow> Inl err | Inr current \<Rightarrow> Inr (coalesce current fallback))"
| "call (QuicklyAccessKey1WithFallback key1 fallback) v =
     (case opt_get v key1 of Inl err \<Rightarrow> Inl err | Inr x \<Rightarrow> Inr (coalesce x fallback))"
| "call (QuicklyAccessKey1 key1) v = opt_get v key1"
| "call (QuicklyAccessKey2WithFallback key1 key2 fallback) v =
     (case opt_get v key1 of
        Inl err \<Rightarrow> Inl err
      | Inr x \<Rightarrow> (case opt_get x key2 of Inl err \<Rightarrow> Inl err | Inr y \<Rightarrow> Inr (coalesce y fallback)))"
| "call (QuicklyAccessKey2 key1 key2) v =
     (case opt_get v key1 of Inl err \<Rightarrow> Inl err | Inr x \<Rightarrow> opt_get x key2)"
| "call (QuicklyExtractValueAtPath e) v = eval [] v e"
| "call (FactoryClosure (Factory n body) args) v = eval args v body"

definition access1 :: "jsval \<Rightarrow> jsval \<Rightarrow> accessor" where
  "access1 key1 fallback =
     (if fallback \<noteq> Undefined then QuicklyAccessKey1WithFallback key1 fallback
      else QuicklyAccessKey1 key1)"

definition access2 :: "jsval \<Rightarrow> jsval \<Rightarrow> jsval \<Rightarrow> accessor" where
  "access2 key1 key2 fallback =
     (if fallback \<noteq> Undefined then QuicklyAccessKey2WithFallback key1 key2 fallback
      else QuicklyAccessKey2 key1 key2)"


section \<open>Steps\<close>

text \<open>
  A step is an \<^verbatim>\<open>AccessStep\<close>, with its one dependency, its path and its fallback
  (\<^verbatim>\<open>undefined\<close> when there is none), or a step of another class, known by its id.
\<close>

datatype step =
    OtherStep nat
  | Access access_step
and access_step =
    AccessStep (getDep0: step) (step_path: "jsval list") (step_fallback: jsval)

text \<open>
  The callback handed to \<^verbatim>\<open>constructDestructureFunction\<close>: the one
  \<^verbatim>\<open>AccessStep.optimize\<close> passes, \<^verbatim>\<open>(fn) => { this.unbatchedExecute = fn; }\<close>, or
  another caller's.
\<close>

datatype callback = SetUnbatchedExecute access_step | Extern nat

section \<open>The caches and the pending compilations\<close>

text \<open>
  Modelled from the spec: the \<^verbatim>\<open>LRU\<close> class of \<^verbatim>\<open>@graphile/lru\<close>, which is not among
  the sources: a cache of "a fixed capacity with least-recently-used eviction". The entries
  are kept most recently used first; the source creates it with \<^verbatim>\<open>maxLength: 1000\<close>.
\<close>

type_synonym lru = "(string \<times> accessor) list"

definition maxLength :: nat where
  "maxLength = 1000"

definition lru_get :: "lru \<Rightarrow> string \<Rightarrow> accessor option \<times> lru" where
  "lru_get c k =
     (case map_of c k of
        None \<Rightarrow> (None, c)
      | Some fn \<Rightarrow> (Some fn, (k, fn) # filter (\<lambda>e. fst e \<noteq> k) c))"

definition lru_set :: "lru \<Rightarrow> string \<Rightarrow> accessor \<Rightarrow> lru" where
  "lru_set c k fn = take maxLength ((k, fn) # filter (\<lambda>e. fst e \<noteq> k) c)"

text \<open>
  Modelled from the spec: \<^verbatim>\<open>te.runInBatch(source, callback)\<close> of the template library.
  A compilation does not complete at once ("only one compilation is triggered; all pending
  callers are notified when it completes"): the source and its continuation are queued, and
  the queue is run later. A queued job is the source and what its continuation closes over:
  the signature and the \<^verbatim>\<open>callbacks\<close> array, by reference.
\<close>

datatype job =
    FactoryJob nat texpr string nat
  | FunctionJob texpr string nat

text \<open>
  The module's state: the turbo tier's cache and its map of compilations in progress;
  the middle tier's two objects; the arrays of pending callbacks, in a store, since the map
  of compilations in progress and the continuation of the compilation share them; the queue
  of compilations; and the log of the calls made to callbacks. An entry of a middle-tier
  array is the closure \<^verbatim>\<open>(fn) => callback(fn(...path))\<close>, that is a callback and a path.
\<close>

record compiler =
  makeDestructureHyperCache :: lru
  makingDestructureHyperCache :: "string \<rightharpoonup> nat"
  makeDestructureCache :: "string \<rightharpoonup> factory"
  makingDestructureCache :: "string \<rightharpoonup> nat"
  hyperArrays :: "nat \<rightharpoonup> callback list"
  factoryArrays :: "nat \<rightharpoonup> (callback \<times> jsval list) list"
  nextRef :: nat
  batch :: "job list"
  calls :: "(callback \<times> accessor) list"

definition initial :: compiler where
  "initial =
     \<lparr> makeDestructureHyperCache = [], makingDestructureHyperCache = Map.empty,
       makeDestructureCache = Map.empty, makingDestructureCache = Map.empty,
       hyperArrays = Map.empty, factoryArrays = Map.empty, nextRef = 0,
       batch = [], calls = [] \<rparr>"

text \<open>Calling a callback with the function made for it.\<close>

definition invoke :: "callback \<Rightarrow> accessor \<Rightarrow> compiler \<Rightarrow> compiler" where
  "invoke cb fn st = st\<lparr>calls := calls st @ [(cb, fn)]\<rparr>"

definition hyper_array :: "compiler \<Rightarrow> nat \<Rightarrow> callback list" where
  "hyper_array st a = (case hyperArrays st a of None \<Rightarrow> [] | Some cbs \<Rightarrow> cbs)"

definition factory_array :: "compiler \<Rightarrow> nat \<Rightarrow> (callback \<times> jsval list) list" where
  "factory_array st a = (case factoryArrays st a of None \<Rightarrow> [] | Some cbs \<Rightarrow> cbs)"

text \<open>
  The turbo tier's \<^verbatim>\<open>done\<close>: the function is cached under the signature, the signature is
  no longer in progress, and every callback of the array is called with the function.
\<close>

definition done_hyper :: "string \<Rightarrow> nat \<Rightarrow> accessor \<Rightarrow> compiler \<Rightarrow> compiler" where
  "done_hyper signature a fn st =
     (let st1 = st\<lparr> makeDestructureHyperCache := lru_set (makeDestructureHyperCache st) signature fn,
                    makingDestructureHyperCache := (makingDestructureHyperCache st)(signature := None) \<rparr>
      in fold (\<lambda>cb. invoke cb fn) (hyper_array st1 a) st1)"

text \<open>The middle tier's continuation, called with the compiled factory.\<close>

definition done_factory :: "string \<Rightarrow> nat \<Rightarrow> factory \<Rightarrow> compiler \<Rightarrow> compiler" where
  "done_factory signature a fac st =
     (let st1 = st\<lparr> makeDestructureCache := (makeDestructureCache st)(signature \<mapsto> fac),
                    makingDestructureCache := (makingDestructureCache st)(signature := None) \<rparr>
      in fold (\<lambda>(cb, path). invoke cb (FactoryClosure fac path)) (factory_array st1 a) st1)"

text \<open>Compiling one queued source and calling its continuation; running the whole queue.\<close>

fun run_job :: "job \<Rightarrow> compiler \<Rightarrow> compiler" where
  "run_job (FactoryJob n body signature a) st = done_factory signature a (Factory n body) st"
| "run_job (FunctionJob e signature a) st = done_hyper signature a (QuicklyExtractValueAtPath e) st"

definition run_batch :: "compiler \<Rightarrow> compiler" where
  "run_batch st = fold run_job (batch st) (st\<lparr>batch := []\<rparr>)"

subsection \<open>Signatures\<close>

text \<open>
  \<^verbatim>\<open>path.join("|")\<close>. \<^verbatim>\<open>null\<close> and \<^verbatim>\<open>undefined\<close> join as the empty string; a symbol
  cannot be converted to a string.
\<close>

fun join_item :: "jsval \<Rightarrow> error + string" where
  "join_item Undefined = Inr []"
| "join_item Null = Inr []"
| "join_item (Bool b) = Inr (if b then ''true'' else ''false'')"
| "join_item (Num n) = Inr (num_to_string n)"
| "join_item (Str s) = Inr s"
| "join_item (Sym k) = Inl TypeError"
| "join_item (Arr r xs) = Inl TypeError"
| "join_item (Obj r kvs) = Inl TypeError"

fun js_join :: "jsval list \<Rightarrow> string \<Rightarrow> error + string" where
  "js_join [] sep = Inr []"
| "js_join [x] sep = join_item x"
| "js_join (x # y # rest) sep =
     (case join_item x of
        Inl err \<Rightarrow> Inl err
      | Inr s \<Rightarrow> (case js_join (y # rest) sep of Inl err \<Rightarrow> Inl err | Inr t \<Rightarrow> Inr (s @ sep @ t)))"

text \<open>The middle tier's signature, \<^verbatim>\<open>(fallback !== undefined ? "f" : "n") + n\<close>.\<close>

definition middle_signature :: "nat \<Rightarrow> jsval \<Rightarrow> string" where
  "middle_signature n fallback = (if fallback \<noteq> Undefined then ''f'' else ''n'') @ show_nat n"

subsection \<open>\<^verbatim>\<open>constructDestructureFunction\<close>\<close>

definition construct_middle :: "jsval list \<Rightarrow> jsval \<Rightarrow> callback \<Rightarrow> compiler \<Rightarrow> compiler" where
  "construct_middle path fallback cb st =
     (let n = length path;
          signature = middle_signature n fallback
      in case makeDestructureCache st signature of
           Some fn \<Rightarrow> invoke cb (FactoryClosure fn path) st
         | None \<Rightarrow>
             (case makingDestructureCache st signature of
                Some a \<Rightarrow> st\<lparr>factoryArrays := (factoryArrays st)(a \<mapsto> factory_array st a @ [(cb, path)])\<rparr>
              | None \<Rightarrow>
                  (let a = nextRef st
                   in st\<lparr> factoryArrays := (factoryArrays st)(a \<mapsto> [(cb, path)]),
                          nextRef := Suc a,
                          makingDestructureCache := (makingDestructureCache st)(signature \<mapsto> a),
                          batch := batch st @ [FactoryJob n (factory_body n) signature a] \<rparr>)))"

definition construct_turbo ::
  "te_access \<Rightarrow> jsval list \<Rightarrow> jsval \<Rightarrow> callback \<Rightarrow> compiler \<Rightarrow> error + compiler" where
  "construct_turbo tg path fallback cb st =
     (case js_join path ''|'' of
        Inl err \<Rightarrow> Inl err
      | Inr signature \<Rightarrow>
          (let (hit, cache) = lru_get (makeDestructureHyperCache st) signature;
               st0 = st\<lparr>makeDestructureHyperCache := cache\<rparr>
           in case hit of
                Some fn \<Rightarrow> Inr (invoke cb fn st0)
              | None \<Rightarrow>
                  (case makingDestructureHyperCache st0 signature of
                     Some a \<Rightarrow> Inr (st0\<lparr>hyperArrays := (hyperArrays st0)(a \<mapsto> hyper_array st0 a @ [cb])\<rparr>)
                   | None \<Rightarrow>
                       (let a = nextRef st0;
                            st1 = st0\<lparr> hyperArrays := (hyperArrays st0)(a \<mapsto> [cb]),
                                       nextRef := Suc a,
                                       makingDestructureHyperCache :=
                                         (makingDestructureHyperCache st0)(signature \<mapsto> a) \<rparr>
                        in case path of
                             [key1] \<Rightarrow> Inr (done_hyper signature a (access1 key1 fallback) st1)
                           | [key1, key2] \<Rightarrow> Inr (done_hyper signature a (access2 key1 key2 fallback) st1)
                           | _ \<Rightarrow>
                               Inr (st1\<lparr>batch := batch st1 @
                                      [FunctionJob (turbo_source tg path fallback) signature a]\<rparr>)))))"

definition constructDestructureFunction ::
  "te_access \<Rightarrow> jsval list \<Rightarrow> jsval \<Rightarrow> callback \<Rightarrow> compiler \<Rightarrow> error + compiler" where
  "constructDestructureFunction tg path fallback cb st =
     (case select_mode path of
        Inl err \<Rightarrow> Inl err
      | Inr Slow \<Rightarrow> Inr (invoke cb (SlowlyExtractValueAtPath path fallback) st)
      | Inr Middle \<Rightarrow> Inr (construct_middle path fallback cb st)
      | Inr Turbo \<Rightarrow> construct_turbo tg path fallback cb st)"


section \<open>\<^verbatim>\<open>AccessStep\<close>\<close>

text \<open>
  \<^verbatim>\<open>access(parentPlan, path, fallback)\<close>: the path is an array of items, or one item.
\<close>

definition access :: "step \<Rightarrow> jsval list + jsval \<Rightarrow> jsval \<Rightarrow> access_step" where
  "access parentPlan path fallback =
     AccessStep parentPlan (case path of Inl items \<Rightarrow> items | Inr item \<Rightarrow> [item]) fallback"

definition get :: "access_step \<Rightarrow> jsval \<Rightarrow> error + access_step" where
  "get this attrName =
     (if typeof attrName \<noteq> ''string'' then Inl GetNotString
      else Inr (AccessStep (getDep0 this) (step_path this @ [attrName]) Undefined))"

text \<open>\<^verbatim>\<open>at\<close> throws the error of \<^verbatim>\<open>get\<close>, with the same message.\<close>

definition at :: "access_step \<Rightarrow> jsval \<Rightarrow> error + access_step" where
  "at this index =
     (if typeof index \<noteq> ''number'' then Inl GetNotString
      else Inr (AccessStep (getDep0 this) (step_path this @ [index]) Undefined))"

text \<open>
  \<^verbatim>\<open>optimize\<close>: an access of an access with no fallback becomes a single access; any other
  step has its accessor function constructed, and is returned as it is.
\<close>

definition optimize ::
  "te_access \<Rightarrow> access_step \<Rightarrow> compiler \<Rightarrow> error + access_step \<times> compiler" where
  "optimize tg this st =
     (let construct =
            (case constructDestructureFunction tg (step_path this) (step_fallback this)
                    (SetUnbatchedExecute this) st of
               Inl err \<Rightarrow> Inl err
             | Inr st' \<Rightarrow> Inr (this, st'))
      in case getDep0 this of
           Access dep \<Rightarrow>
             if step_fallback dep = Undefined then
               Inr (access (getDep0 dep) (Inl (step_path dep @ step_path this)) (step_fallback this), st)
             else construct
         | OtherStep i \<Rightarrow> construct)"

text \<open>
  \<^verbatim>\<open>unbatchedExecute\<close> of a step: the function last assigned to it by its callback, and
  the method that throws as long as none has been.
\<close>

definition unbatchedExecute :: "compiler \<Rightarrow> access_step \<Rightarrow> jsval \<Rightarrow> error + jsval" where
  "unbatchedExecute st this v =
     (case filter (\<lambda>c. fst c = SetUnbatchedExecute this) (calls st) of
        [] \<Rightarrow> Inl NotReplaced
      | c # cs \<Rightarrow> call (snd (last (c # cs))) v)"

subsection \<open>\<^verbatim>\<open>JSON.stringify\<close>\<close>

definition hex_char :: "nat \<Rightarrow> char" where
  "hex_char d = (if d < 10 then char_of (48 + d) else char_of (87 + d))"

text \<open>
  One character of a quoted JSON string: the two-character escapes, \<^verbatim>\<open>\u00XX\<close> for the
  other control characters, and the character itself otherwise.
\<close>

definition json_char :: "char \<Rightarrow> string" where
  "json_char c =
     (if c = CHR 0x08 then [CHR 0x5C, CHR ''b'']
      else if c = CHR 0x09 then [CHR 0x5C, CHR ''t'']
      else if c = CHR 0x0A then [CHR 0x5C, CHR ''n'']
      else if c = CHR 0x0C then [CHR 0x5C, CHR ''f'']
      else if c = CHR 0x0D then [CHR 0x5C, CHR ''r'']
      else if c = CHR 0x22 then [CHR 0x5C, CHR 0x22]
      else if c = CHR 0x5C then [CHR 0x5C, CHR 0x5C]
      else if of_char c < (32 :: nat) then
        [CHR 0x5C, CHR ''u'', CHR ''0'', CHR ''0'',
         hex_char (of_char c div 16), hex_char (of_char c mod 16)]
      else [c])"

definition json_quote :: "string \<Rightarrow> string" where
  "json_quote s = CHR 0x22 # concat (map json_char s) @ [CHR 0x22]"

fun join_strings :: "string list \<Rightarrow> string \<Rightarrow> string" where
  "join_strings [] sep = []"
| "join_strings [x] sep = x"
| "join_strings (x # y # rest) sep = x @ sep @ join_strings (y # rest) sep"

text \<open>
  \<^verbatim>\<open>JSON.stringify(v)\<close>; \<open>None\<close> is the result \<^verbatim>\<open>undefined\<close>. In an array,
  \<^verbatim>\<open>undefined\<close> and a symbol are written \<^verbatim>\<open>null\<close>; in an object, a property with such a
  value, or with a symbol as its key, is left out. An object's properties are written in
  the order the object lists them.
\<close>

fun json_stringify :: "jsval \<Rightarrow> string option" where
  "json_stringify Undefined = None"
| "json_stringify Null = Some ''null''"
| "json_stringify (Bool b) = Some (if b then ''true'' else ''false'')"
| "json_stringify (Num (Fin i)) = Some (show_int i)"
| "json_stringify (Num n) = Some ''null''"
| "json_stringify (Str s) = Some (json_quote s)"
| "json_stringify (Sym k) = None"
| "json_stringify (Arr r xs) =
     Some (CHR ''['' #
       join_strings (map (\<lambda>x. case json_stringify x of None \<Rightarrow> ''null'' | Some t \<Rightarrow> t) xs) '','' @ '']'')"
| "json_stringify (Obj r kvs) =
     Some (CHR ''{'' #
       join_strings
         (concat (map (\<lambda>kv. case fst kv of
                     KSym k \<Rightarrow> []
                   | KStr name \<Rightarrow>
                       (case json_stringify (snd kv) of
                          None \<Rightarrow> []
                        | Some t \<Rightarrow> [json_quote name @ '':'' @ t])) kvs)) '','' @ ''}'')"

text \<open>\<^verbatim>\<open>JSON.stringify(path)\<close>, of a path, which is an array.\<close>

definition json_stringify_path :: "jsval list \<Rightarrow> string" where
  "json_stringify_path items =
     CHR ''['' #
       join_strings (map (\<lambda>x. case json_stringify x of None \<Rightarrow> ''null'' | Some t \<Rightarrow> t) items) '','' @ '']''"

definition deduplicate :: "access_step \<Rightarrow> access_step list \<Rightarrow> access_step list" where
  "deduplicate this peers =
     (let myPath = json_stringify_path (step_path this)
      in filter (\<lambda>p. strict_eq (step_fallback p) (step_fallback this)
                    \<and> json_stringify_path (step_path p) = myPath) peers)"


section \<open>The traversal of a plan in \<^verbatim>\<open>planToMermaid\<close>\<close>

text \<open>
  The plan's JSON, as far as \<^verbatim>\<open>extractSteps\<close> reads it. The type declarations are not
  among the sources; a step's id is the "monotonic id" of the spec, a number (the source
  compares it with \<^verbatim>\<open>Number(id)\<close>). A bucket has its id, its steps and its child buckets.
\<close>

record stepJSON =
  stepId :: nat
  stepClass :: string
  bucketId :: nat
  dependencyIds :: "nat list"

datatype bucketJSON =
  Bucket (bucket_id: nat) (bucket_steps: "stepJSON list") (bucket_children: "bucketJSON list")

record planJSON =
  version :: string
  rootBucket :: bucketJSON

text \<open>
  What the traversal fills: \<^verbatim>\<open>stepById\<close>, \<^verbatim>\<open>layerPlanById\<close>,
  \<^verbatim>\<open>dependentsByStepId\<close> and \<^verbatim>\<open>sortedSteps\<close>.
\<close>

record extracted =
  stepById :: "nat \<rightharpoonup> stepJSON"
  layerPlanById :: "nat \<rightharpoonup> bucketJSON"
  dependentsByStepId :: "nat \<rightharpoonup> stepJSON list"
  sortedSteps :: "stepJSON list"

definition nothing_extracted :: extracted where
  "nothing_extracted =
     \<lparr> stepById = Map.empty, layerPlanById = Map.empty,
       dependentsByStepId = Map.empty, sortedSteps = [] \<rparr>"

text \<open>The inner loop over a step's dependencies.\<close>

definition add_dependent :: "stepJSON \<Rightarrow> nat \<Rightarrow> extracted \<Rightarrow> extracted" where
  "add_dependent step depId st =
     (case dependentsByStepId st depId of
        None \<Rightarrow> st\<lparr>dependentsByStepId := (dependentsByStepId st)(depId \<mapsto> [step])\<rparr>
      | Some ds \<Rightarrow> st\<lparr>dependentsByStepId := (dependentsByStepId st)(depId \<mapsto> ds @ [step])\<rparr>)"

text \<open>The body of the loop over a bucket's sorted steps.\<close>

definition register_step :: "stepJSON \<Rightarrow> extracted \<Rightarrow> error + extracted" where
  "register_step step st =
     (if stepById st (stepId step) \<noteq> None then Inl (StepDuplicated (stepId step))
      else Inr (fold (add_dependent step) (dependencyIds step)
                  (st\<lparr> stepById := (stepById st)(stepId step \<mapsto> step),
                       sortedSteps := sortedSteps st @ [step] \<rparr>)))"

fun register_steps :: "stepJSON list \<Rightarrow> extracted \<Rightarrow> error + extracted" where
  "register_steps [] st = Inr st"
| "register_steps (step # rest) st =
     (case register_step step st of Inl err \<Rightarrow> Inl err | Inr st' \<Rightarrow> register_steps rest st')"

text \<open>
  \<^verbatim>\<open>[...bucket.steps].sort((a, z) => z.dependencyIds.length - a.dependencyIds.length)\<close>:
  most dependencies first, and stable.
\<close>

definition sort_steps :: "stepJSON list \<Rightarrow> stepJSON list" where
  "sort_steps steps = sort_key (\<lambda>s. - int (length (dependencyIds s))) steps"

fun extractSteps :: "bucketJSON \<Rightarrow> extracted \<Rightarrow> error + extracted"
  and extractChildren :: "bucketJSON list \<Rightarrow> extracted \<Rightarrow> error + extracted" where
  "extractSteps (Bucket i steps children) st =
     (case register_steps (sort_steps steps)
             (st\<lparr>layerPlanById := (layerPlanById st)(i \<mapsto> Bucket i steps children)\<rparr>) of
        Inl err \<Rightarrow> Inl err
      | Inr st' \<Rightarrow> extractChildren children st')"
| "extractChildren [] st = Inr st"
| "extractChildren (child # rest) st =
     (case extractSteps child st of Inl err \<Rightarrow> Inl err | Inr st' \<Rightarrow> extractChildren rest st')"

text \<open>
  \<^verbatim>\<open>planToMermaid\<close>: the version is checked, the steps are extracted, and the diagram is
  drawn from what was extracted. The drawing is the parameter \<open>draw\<close>.
\<close>

definition planToMermaid :: "(extracted \<Rightarrow> error + string) \<Rightarrow> planJSON \<Rightarrow> error + string" where
  "planToMermaid draw plan =
     (if version plan \<noteq> ''v1'' then Inl UnsupportedVersion
      else case extractSteps (rootBucket plan) nothing_extracted of
        Inl err \<Rightarrow> Inl err
      | Inr st \<Rightarrow> draw st)"

text \<open>All the buckets of a tree, parents first, and all the steps in them.\<close>

fun buckets_of :: "bucketJSON \<Rightarrow> bucketJSON list" where
  "buckets_of (Bucket i steps children) = Bucket i steps children # concat (map buckets_of children)"

definition all_steps :: "bucketJSON \<Rightarrow> stepJSON list" where
  "all_steps b = concat (map bucket_steps (buckets_of b))"


section \<open>Kinds of path items\<close>

text \<open>
  The branches of the validation loop, as predicates on a path item: the item that makes
  the loop throw; the item that sets the mode to slow; the symbol.
\<close>

definition invalid_item :: "jsval \<Rightarrow> bool" where
  "invalid_item x =
     (typeof x \<noteq> ''symbol'' \<and> typeof x \<noteq> ''string'' \<and> typeof x \<noteq> ''number'' \<and> \<not> nullish x)"

definition forces_slow :: "jsval \<Rightarrow> bool" where
  "forces_slow x = ((typeof x = ''number'' \<and> \<not> isFinite x) \<or> nullish x)"

definition is_symbol :: "jsval \<Rightarrow> bool" where
  "is_symbol x = (typeof x = ''symbol'')"

text \<open>A string or a finite number: the items the turbo tier is left with.\<close>

definition plain_item :: "jsval \<Rightarrow> bool" where
  "plain_item x = (typeof x = ''string'' \<or> (typeof x = ''number'' \<and> isFinite x))"

section \<open>The turbo tier's function and the optional chain\<close>

text \<open>
  The function the turbo tier makes for a path and a fallback, when it makes one: the
  closure of \<^verbatim>\<open>access1\<close> for one item, of \<^verbatim>\<open>access2\<close> for two, and the function
  compiled from the generated source for any other length.
\<close>

definition turbo_function :: "te_access \<Rightarrow> jsval list \<Rightarrow> jsval \<Rightarrow> accessor" where
  "turbo_function tg path fallback =
     (case path of
        [key1] \<Rightarrow> access1 key1 fallback
      | [key1, key2] \<Rightarrow> access2 key1 key2 fallback
      | _ \<Rightarrow> QuicklyExtractValueAtPath (turbo_source tg path fallback))"

text \<open>\<^verbatim>\<open>v?.[k1]?.[k2]...\<close>, the chain of optional accesses along a path.\<close>

fun opt_chain :: "jsval list \<Rightarrow> jsval \<Rightarrow> error + jsval" where
  "opt_chain [] v = Inr v"
| "opt_chain (k # ks) v = (case opt_get v k of Inl err \<Rightarrow> Inl err | Inr x \<Rightarrow> opt_chain ks x)"

section \<open>The function made for a path when nothing is cached\<close>

text \<open>
  What \<^verbatim>\<open>constructDestructureFunction\<close> hands to the callback when the caches hold
  nothing for the path: the slow walker, the arrow function of the middle tier's factory
  for the path, or the turbo tier's function. \<open>execute\<close> calls it on a value.
\<close>

definition accessor_for :: "te_access \<Rightarrow> jsval list \<Rightarrow> jsval \<Rightarrow> error + accessor" where
  "accessor_for tg path fallback =
     (case select_mode path of
        Inl err \<Rightarrow> Inl err
      | Inr Slow \<Rightarrow> Inr (SlowlyExtractValueAtPath path fallback)
      | Inr Middle \<Rightarrow> Inr (FactoryClosure (Factory (length path) (factory_body (length path))) path)
      | Inr Turbo \<Rightarrow> Inr (turbo_function tg path fallback))"

definition execute :: "te_access \<Rightarrow> jsval list \<Rightarrow> jsval \<Rightarrow> jsval \<Rightarrow> error + jsval" where
  "execute tg path fallback v =
     (case accessor_for tg path fallback of Inl err \<Rightarrow> Inl err | Inr fn \<Rightarrow> call fn v)"

section \<open>What the traversal has registered\<close>

text \<open>
  The ids of some steps are free in a state of the traversal when they are distinct and
  none is registered yet. A state has registered some steps from an earlier state when
  \<^verbatim>\<open>stepById\<close> has gained exactly these steps under their ids, and \<^verbatim>\<open>sortedSteps\<close>
  exactly these steps, in some order.
\<close>

definition free_ids :: "stepJSON list \<Rightarrow> extracted \<Rightarrow> bool" where
  "free_ids xs st =
     (distinct (map stepId xs) \<and> stepId ` set xs \<inter> dom (stepById st) = {})"

definition registered :: "extracted \<Rightarrow> stepJSON list \<Rightarrow> extracted \<Rightarrow> bool" where
  "registered st xs st' =
     (dom (stepById st') = dom (stepById st) \<union> stepId ` set xs
      \<and> (\<forall>s\<in>set xs. stepById st' (stepId s) = Some s)
      \<and> (\<forall>k. k \<notin> stepId ` set xs \<longrightarrow> stepById st' k = stepById st k)
      \<and> mset (sortedSteps st') = mset (sortedSteps st) + mset xs)"

definition children_steps :: "bucketJSON list \<Rightarrow> stepJSON list" where
  "children_steps bs = concat (map all_steps bs)"

text \<open>Two small plans: one whose buckets share no step, one where step 1 is in two buckets.\<close>

definition example_plan :: planJSON where
  "example_plan =
     \<lparr> version = ''v1'',
       rootBucket =
         Bucket 0
           [\<lparr>stepId = 0, stepClass = ''__ValueStep'', bucketId = 0, dependencyIds = []\<rparr>,
            \<lparr>stepId = 1, stepClass = ''AccessStep'', bucketId = 0, dependencyIds = [0]\<rparr>]
           [Bucket 1
              [\<lparr>stepId = 2, stepClass = ''__ItemStep'', bucketId = 1, dependencyIds = [1]\<rparr>] []] \<rparr>"

definition example_bad_plan :: planJSON where
  "example_bad_plan =
     \<lparr> version = ''v1'',
       rootBucket =
         Bucket 0
           [\<lparr>stepId = 0, stepClass = ''__ValueStep'', bucketId = 0, dependencyIds = []\<rparr>,
            \<lparr>stepId = 1, stepClass = ''AccessStep'', bucketId = 0, dependencyIds = [0]\<rparr>]
           [Bucket 1
              [\<lparr>stepId = 1, stepClass = ''__ItemStep'', bucketId = 1, dependencyIds = [1]\<rparr>] []] \<rparr>"

section \<open>Reading the generated source\<close>

text \<open>
  \<^verbatim>\<open>v[k1][k2]...\<close>, the chain of plain accesses along a path, which throws at the first
  \<^verbatim>\<open>null\<close> or \<^verbatim>\<open>undefined\<close>; and the values a source embeds as literals.
\<close>

fun strict_chain :: "jsval list \<Rightarrow> jsval \<Rightarrow> error + jsval" where
  "strict_chain [] v = Inr v"
| "strict_chain (k # ks) v = (case get_prop v k of Inl err \<Rightarrow> Inl err | Inr x \<Rightarrow> strict_chain ks x)"

fun literals :: "texpr \<Rightarrow> jsval list" where
  "literals Value = []"
| "literals (Param i) = []"
| "literals (Lit x) = [x]"
| "literals (Get e k) = literals e @ literals k"
| "literals (OptGet e k) = literals e @ literals k"
| "literals (Coalesce a b) = literals a @ literals b"

section \<open>Requests over time\<close>

text \<open>
  What happens to the module's state: a caller asks for the function of a path (a request
  that throws leaves the state as it was), or the queue of compilations is run. \<open>run\<close>
  is the state after a sequence of these, from the state in which the module is loaded.
\<close>

datatype event = Request "jsval list" jsval callback | RunBatch

fun apply_event :: "te_access \<Rightarrow> event \<Rightarrow> compiler \<Rightarrow> compiler" where
  "apply_event tg (Request path fallback cb) st =
     (case constructDestructureFunction tg path fallback cb st of Inl err \<Rightarrow> st | Inr st' \<Rightarrow> st')"
| "apply_event tg RunBatch st = run_batch st"

definition run :: "te_access \<Rightarrow> event list \<Rightarrow> compiler" where
  "run tg evs = fold (apply_event tg) evs initial"

text \<open>
  The jobs that compile a given signature, in each tier; the calls a job makes when it
  completes; and the invariant of the state: a signature is marked as in progress exactly
  when one job of the queue compiles it, that job holds the array the mark refers to, the
  array exists, and the signature is not cached.
\<close>

fun compiles_hyper :: "string \<Rightarrow> job \<Rightarrow> bool" where
  "compiles_hyper signature (FunctionJob e s a) = (s = signature)"
| "compiles_hyper signature (FactoryJob n body s a) = False"

fun compiles_factory :: "string \<Rightarrow> job \<Rightarrow> bool" where
  "compiles_factory signature (FactoryJob n body s a) = (s = signature)"
| "compiles_factory signature (FunctionJob e s a) = False"

fun notified :: "compiler \<Rightarrow> job \<Rightarrow> (callback \<times> accessor) list" where
  "notified st (FunctionJob e signature a) =
     map (\<lambda>cb. (cb, QuicklyExtractValueAtPath e)) (hyper_array st a)"
| "notified st (FactoryJob n body signature a) =
     map (\<lambda>(cb, path). (cb, FactoryClosure (Factory n body) path)) (factory_array st a)"

definition hyper_ok :: "compiler \<Rightarrow> string \<Rightarrow> bool" where
  "hyper_ok st signature =
     ((makingDestructureHyperCache st signature = None \<longrightarrow>
         filter (compiles_hyper signature) (batch st) = [])
      \<and> (\<forall>a. makingDestructureHyperCache st signature = Some a \<longrightarrow>
            (\<exists>e. filter (compiles_hyper signature) (batch st) = [FunctionJob e signature a])
            \<and> map_of (makeDestructureHyperCache st) signature = None
            \<and> a < nextRef st
            \<and> hyperArrays st a \<noteq> None))"

definition factory_ok :: "compiler \<Rightarrow> string \<Rightarrow> bool" where
  "factory_ok st signature =
     ((makingDestructureCache st signature = None \<longrightarrow>
         filter (compiles_factory signature) (batch st) = [])
      \<and> (\<forall>a. makingDestructureCache st signature = Some a \<longrightarrow>
            (\<exists>n body. filter (compiles_factory signature) (batch st) = [FactoryJob n body signature a])
            \<and> makeDestructureCache st signature = None
            \<and> a < nextRef st
            \<and> factoryArrays st a \<noteq> None))"

definition consistent :: "compiler \<Rightarrow> bool" where
  "consistent st = (\<forall>signature. hyper_ok st signature \<and> factory_ok st signature)"

text \<open>
  Nothing is cached or in progress under the signature of a path, in the turbo tier; and
  a request for a path and a fallback is answered with a given function: the request
  returns, and once the queue has run, the callback has been called with the function, once
  more than it would have been without the request, and no other call is added or lost.
\<close>

definition turbo_miss :: "compiler \<Rightarrow> jsval list \<Rightarrow> bool" where
  "turbo_miss st path =
     (case js_join path ''|'' of
        Inl err \<Rightarrow> False
      | Inr signature \<Rightarrow>
          map_of (makeDestructureHyperCache st) signature = None
          \<and> makingDestructureHyperCache st signature = None)"

definition delivered ::
  "te_access \<Rightarrow> compiler \<Rightarrow> jsval list \<Rightarrow> jsval \<Rightarrow> callback \<Rightarrow> accessor \<Rightarrow> bool" where
  "delivered tg st path fallback cb fn =
     (case constructDestructureFunction tg path fallback cb st of
        Inl err \<Rightarrow> False
      | Inr st' \<Rightarrow> mset (calls (run_batch st')) = mset (calls (run_batch st)) + {#(cb, fn)#})"

section \<open>Reading serialised paths back\<close>

text \<open>The decimal digits, by their character codes.\<close>

definition digit_chars :: "char set" where
  "digit_chars = {c. 48 \<le> (of_char c :: nat) \<and> (of_char c :: nat) \<le> 57}"

text \<open>Reading a decimal numeral back.\<close>

definition read_nat :: "string \<Rightarrow> nat" where
  "read_nat s = foldl (\<lambda>a c. 10 * a + (of_char c - 48)) 0 s"

text \<open>The characters \<^verbatim>\<open>JSON.stringify\<close> writes as a two-character escape.\<close>

definition short_escaped :: "char \<Rightarrow> bool" where
  "short_escaped c =
     (c = CHR 0x08 \<or> c = CHR 0x09 \<or> c = CHR 0x0A \<or> c = CHR 0x0C \<or> c = CHR 0x0D
      \<or> c = CHR 0x22 \<or> c = CHR 0x5C)"

text \<open>An element of an array as \<^verbatim>\<open>JSON.stringify\<close> writes it.\<close>

definition json_element :: "jsval \<Rightarrow> string" where
  "json_element x = (case json_stringify x of None \<Rightarrow> ''null'' | Some t \<Rightarrow> t)"

section \<open>Properties of the tier selection\<close>

lemma invalid_item_simps [simp]:
  "invalid_item Undefined = False" "invalid_item Null = False" "invalid_item (Bool b) = True"
  "invalid_item (Num n) = False" "invalid_item (Str s) = False" "invalid_item (Sym k) = False"
  "invalid_item (Arr r xs) = True" "invalid_item (Obj r kvs) = True"
  by (simp_all add: invalid_item_def)

lemma forces_slow_simps [simp]:
  "forces_slow Undefined = True" "forces_slow Null = True" "forces_slow (Bool b) = False"
  "forces_slow (Num (Fin i)) = False" "forces_slow (Num NaN) = True"
  "forces_slow (Num PosInf) = True" "forces_slow (Num NegInf) = True"
  "forces_slow (Str s) = False" "forces_slow (Sym k) = False"
  "forces_slow (Arr r xs) = False" "forces_slow (Obj r kvs) = False"
  by (simp_all add: forces_slow_def)

lemma is_symbol_simps [simp]:
  "is_symbol Undefined = False" "is_symbol Null = False" "is_symbol (Bool b) = False"
  "is_symbol (Num n) = False" "is_symbol (Str s) = False" "is_symbol (Sym k) = True"
  "is_symbol (Arr r xs) = False" "is_symbol (Obj r kvs) = False"
  by (simp_all add: is_symbol_def)

lemma plain_item_simps [simp]:
  "plain_item Undefined = False" "plain_item Null = False" "plain_item (Bool b) = False"
  "plain_item (Num (Fin i)) = True" "plain_item (Num NaN) = False"
  "plain_item (Num PosInf) = False" "plain_item (Num NegInf) = False"
  "plain_item (Str s) = True" "plain_item (Sym k) = False"
  "plain_item (Arr r xs) = False" "plain_item (Obj r kvs) = False"
  by (simp_all add: plain_item_def)

lemma plain_item_iff:
  "plain_item x \<longleftrightarrow> \<not> invalid_item x \<and> \<not> forces_slow x \<and> \<not> is_symbol x"
proof (cases x)
  case (Num n)
  then show ?thesis by (cases n) simp_all
qed simp_all

text \<open>
  What the validation loop returns from any starting mode: the error at the first item
  that is invalid, and otherwise the lowest mode any item asks for.
\<close>

lemma scan_path_eq:
  "scan_path path items m =
     (case find invalid_item items of
        Some x \<Rightarrow> Inl (InvalidPathItem x path)
      | None \<Rightarrow>
          Inr (if m = Slow \<or> (\<exists>x\<in>set items. forces_slow x) then Slow
               else if m = Middle \<or> (\<exists>x\<in>set items. is_symbol x) then Middle
               else Turbo))"
proof (induction items arbitrary: m)
  case Nil
  then show ?case by (cases m) auto
next
  case (Cons x items)
  show ?case
  proof (cases x)
    case (Num n)
    then show ?thesis using Cons.IH by (cases n) (auto split: option.splits)
  qed (use Cons.IH in \<open>cases m; auto split: option.splits\<close>)+
qed

lemma select_mode_eq:
  "select_mode path =
     (case find invalid_item path of
        Some x \<Rightarrow> Inl (InvalidPathItem x path)
      | None \<Rightarrow>
          Inr (if 50 < length path \<or> (\<exists>x\<in>set path. forces_slow x) then Slow
               else if 5 < length path \<or> (\<exists>x\<in>set path. is_symbol x) then Middle
               else Turbo))"
  by (auto simp: select_mode_def scan_path_eq initial_mode_def split: option.splits)

lemma find_invalid_None: "find invalid_item path = None \<longleftrightarrow> (\<forall>x\<in>set path. \<not> invalid_item x)"
  by (auto simp: find_None_iff)

lemma find_invalid_Some: "find invalid_item path = Some x \<Longrightarrow> x \<in> set path \<and> invalid_item x"
  by (induction path) (auto split: if_splits)

lemma select_mode_isl: "isl (select_mode path) \<longleftrightarrow> (\<exists>x\<in>set path. invalid_item x)"
proof (cases "find invalid_item path")
  case None
  then show ?thesis using find_invalid_None [of path] by (simp add: select_mode_eq)
next
  case (Some x)
  then show ?thesis using find_invalid_Some [of path x] by (auto simp: select_mode_eq)
qed

lemma select_mode_Turbo:
  "select_mode path = Inr Turbo \<longleftrightarrow> length path \<le> 5 \<and> (\<forall>x\<in>set path. plain_item x)"
proof (cases "find invalid_item path")
  case None
  then have "\<forall>x\<in>set path. \<not> invalid_item x" by (simp add: find_invalid_None)
  then show ?thesis using None by (auto simp: select_mode_eq plain_item_iff)
next
  case (Some x)
  then show ?thesis using find_invalid_Some [of path x] by (auto simp: select_mode_eq plain_item_iff)
qed

lemma js_join_plain:
  "\<forall>x\<in>set path. plain_item x \<Longrightarrow> \<exists>signature. js_join path sep = Inr signature"
proof (induction path sep rule: js_join.induct)
  case (2 x sep)
  then show ?case by (cases x rule: join_item.cases) auto
next
  case (3 x y rest sep)
  then show ?case by (cases x rule: join_item.cases) auto
qed simp

lemma construct_turbo_no_error:
  "\<forall>x\<in>set path. plain_item x \<Longrightarrow> \<not> isl (construct_turbo tg path fallback cb st)"
proof -
  assume "\<forall>x\<in>set path. plain_item x"
  then obtain signature where "js_join path ''|'' = Inr signature"
    using js_join_plain by blast
  then show ?thesis
    by (auto simp: construct_turbo_def Let_def split: prod.splits option.splits list.splits)
qed

text \<open>
  C4 (the code at the input where it parts from the claim). A path of one string that
  contains the separator, \<^verbatim>\<open>["a|b"]\<close>, is compiled in turbo mode: the loop tests the
  name of the item's type, \<^verbatim>\<open>"string"\<close>, for the separator, and not the item.
\<close>

theorem C4_separator_string_is_turbo:
  "select_mode [Str ''a|b''] = Inr Turbo"
  by (simp add: select_mode_def initial_mode_def)

text \<open>
  C6 (as the claim states it, at a path whose only item is \<^verbatim>\<open>undefined\<close>). The item is
  not a string, a finite number or a symbol, and it is neither \<^verbatim>\<open>null\<close> nor a non-finite
  number, so the claim has the construction fail; it returns the slow walker.
\<close>

theorem C6_undefined_item_counterexample:
  "typeof Undefined \<noteq> ''string'' \<and> typeof Undefined \<noteq> ''symbol'' \<and> \<not> isFinite Undefined
   \<and> Undefined \<noteq> Null \<and> typeof Undefined \<noteq> ''number''
   \<and> constructDestructureFunction PlainAccess [Undefined] Undefined (Extern 0) initial
       = Inr (invoke (Extern 0) (SlowlyExtractValueAtPath [Undefined] Undefined) initial)"
  by (simp add: constructDestructureFunction_def select_mode_def initial_mode_def)

text \<open>
  C6 (amended). \<^verbatim>\<open>constructDestructureFunction\<close> throws if and only if some item of the
  path is neither a string, a number, a symbol, \<^verbatim>\<open>null\<close> nor \<^verbatim>\<open>undefined\<close>; it throws
  for the first such item, whatever the state, before any callback is called or any cache
  is touched. When no item is such, and some item is \<^verbatim>\<open>null\<close>, \<^verbatim>\<open>undefined\<close> or a
  non-finite number, the callback is called at once with the slow walker, and nothing else
  changes.
\<close>

theorem C6_construction_error:
  "(isl (constructDestructureFunction tg path fallback cb st) \<longleftrightarrow> (\<exists>x\<in>set path. invalid_item x))
   \<and> (\<forall>x. find invalid_item path = Some x \<longrightarrow>
         constructDestructureFunction tg path fallback cb st = Inl (InvalidPathItem x path))
   \<and> ((\<forall>x\<in>set path. \<not> invalid_item x) \<and> (\<exists>x\<in>set path. forces_slow x) \<longrightarrow>
         constructDestructureFunction tg path fallback cb st
           = Inr (invoke cb (SlowlyExtractValueAtPath path fallback) st))"
proof (intro conjI allI impI)
  show "isl (constructDestructureFunction tg path fallback cb st) \<longleftrightarrow> (\<exists>x\<in>set path. invalid_item x)"
  proof (cases "select_mode path")
    case (Inl err)
    then show ?thesis
      using select_mode_isl [of path] by (simp add: constructDestructureFunction_def)
  next
    case (Inr m)
    then have none: "\<not> (\<exists>x\<in>set path. invalid_item x)"
      using select_mode_isl [of path] by simp
    show ?thesis
    proof (cases m)
      case Turbo
      then have "\<forall>x\<in>set path. plain_item x"
        using Inr select_mode_Turbo by blast
      then show ?thesis
        using none Inr Turbo construct_turbo_no_error
        by (simp add: constructDestructureFunction_def)
    qed (use none Inr in \<open>simp_all add: constructDestructureFunction_def\<close>)
  qed
next
  fix x assume "find invalid_item path = Some x"
  then show "constructDestructureFunction tg path fallback cb st = Inl (InvalidPathItem x path)"
    by (simp add: constructDestructureFunction_def select_mode_eq)
next
  assume "(\<forall>x\<in>set path. \<not> invalid_item x) \<and> (\<exists>x\<in>set path. forces_slow x)"
  then show "constructDestructureFunction tg path fallback cb st
               = Inr (invoke cb (SlowlyExtractValueAtPath path fallback) st)"
    using find_invalid_None [of path]
    by (auto simp: constructDestructureFunction_def select_mode_eq)
qed

theorem C6_construction_error_witness:
  "isl (constructDestructureFunction PlainAccess [Str ''a'', Bool True] Null (Extern 0) initial)
   \<and> constructDestructureFunction PlainAccess [Str ''a'', Bool True] Null (Extern 0) initial
       = Inl (InvalidPathItem (Bool True) [Str ''a'', Bool True])
   \<and> constructDestructureFunction PlainAccess [Num NaN, Null] Null (Extern 0) initial
       = Inr (invoke (Extern 0) (SlowlyExtractValueAtPath [Num NaN, Null] Null) initial)"
  using C6_construction_error [of PlainAccess "[Str ''a'', Bool True]" Null "Extern 0" initial]
        C6_construction_error [of PlainAccess "[Num NaN, Null]" Null "Extern 0" initial]
  by simp


section \<open>Properties of \<^verbatim>\<open>AccessStep\<close>\<close>

lemma getDep0_not_self: "getDep0 s \<noteq> Access s"
proof
  assume "getDep0 s = Access s"
  then have "size (getDep0 s) = size (Access s)" by simp
  then show False by (cases s) simp
qed

text \<open>
  C10. \<^verbatim>\<open>s.get(k)\<close> with a string \<open>k\<close> is a new \<^verbatim>\<open>AccessStep\<close> on the dependency of
  \<open>s\<close> (which is not \<open>s\<close>), with the path of \<open>s\<close> and then \<open>k\<close>, and with no
  fallback, whatever the fallback of \<open>s\<close>; with anything that is not a string it throws.
  \<^verbatim>\<open>s.at(i)\<close> does the same with a number, and throws with anything that is not a number.
\<close>

theorem C10_get_at:
  "(typeof k = ''string'' \<longrightarrow>
      get s k = Inr (AccessStep (getDep0 s) (step_path s @ [k]) Undefined)
      \<and> getDep0 s \<noteq> Access s)
   \<and> (typeof k \<noteq> ''string'' \<longrightarrow> get s k = Inl GetNotString)
   \<and> (typeof i = ''number'' \<longrightarrow>
      at s i = Inr (AccessStep (getDep0 s) (step_path s @ [i]) Undefined)
      \<and> getDep0 s \<noteq> Access s)
   \<and> (typeof i \<noteq> ''number'' \<longrightarrow> at s i = Inl GetNotString)"
  by (simp add: get_def at_def getDep0_not_self)

theorem C10_get_at_witness:
  "get (AccessStep (OtherStep 1) [Str ''a''] Null) (Str ''b'')
     = Inr (AccessStep (OtherStep 1) [Str ''a'', Str ''b''] Undefined)
   \<and> get (AccessStep (OtherStep 1) [Str ''a''] Null) (Num (Fin 0)) = Inl GetNotString
   \<and> at (AccessStep (OtherStep 1) [Str ''a''] Null) (Num (Fin 0))
     = Inr (AccessStep (OtherStep 1) [Str ''a'', Num (Fin 0)] Undefined)
   \<and> at (AccessStep (OtherStep 1) [Str ''a''] Null) (Str ''b'') = Inl GetNotString"
  using C10_get_at [of "Str ''b''" "AccessStep (OtherStep 1) [Str ''a''] Null" "Num (Fin 0)"]
        C10_get_at [of "Num (Fin 0)" "AccessStep (OtherStep 1) [Str ''a''] Null" "Str ''b''"]
  by simp


section \<open>What the accessor functions compute\<close>

lemma opt_chain_Undefined [simp]: "opt_chain ks Undefined = Inr Undefined"
  by (induction ks) (simp_all add: opt_get_def)

lemma opt_chain_append:
  "opt_chain (ks @ ks') v = (case opt_chain ks v of Inl err \<Rightarrow> Inl err | Inr x \<Rightarrow> opt_chain ks' x)"
  by (induction ks arbitrary: v) (auto split: sum.splits)

lemma strict_chain_opt_chain: "strict_chain ks v = Inr x \<Longrightarrow> opt_chain ks v = Inr x"
proof (induction ks arbitrary: v)
  case Nil
  then show ?case by simp
next
  case (Cons k ks)
  then show ?case
    by (cases "nullish v") (auto simp: opt_get_def get_prop_def split: sum.splits)
qed

lemma eval_te_get_optional:
  "eval args v (te_get OptionalAccess k e) =
     (case eval args v e of Inl err \<Rightarrow> Inl err | Inr x \<Rightarrow> opt_get x k)"
  by (simp add: opt_get_def split: sum.splits)

lemma eval_te_get_plain:
  "eval args v (te_get PlainAccess k e) =
     (case eval args v e of Inl err \<Rightarrow> Inl err | Inr x \<Rightarrow> get_prop x k)"
  by (simp split: sum.splits)

lemma eval_join_optional:
  "eval args v (join_onto e (map (te_get OptionalAccess) path)) =
     (case eval args v e of Inl err \<Rightarrow> Inl err | Inr x \<Rightarrow> opt_chain path x)"
  unfolding join_onto_def
proof (induction path arbitrary: e)
  case Nil
  then show ?case by (simp split: sum.splits)
next
  case (Cons k path)
  show ?case by (simp add: Cons.IH eval_te_get_optional del: te_get.simps split: sum.splits)
qed

lemma eval_join_plain:
  "eval args v (join_onto e (map (te_get PlainAccess) path)) =
     (case eval args v e of Inl err \<Rightarrow> Inl err | Inr x \<Rightarrow> strict_chain path x)"
  unfolding join_onto_def
proof (induction path arbitrary: e)
  case Nil
  then show ?case by (simp split: sum.splits)
next
  case (Cons k path)
  show ?case by (simp add: Cons.IH eval_te_get_plain del: te_get.simps split: sum.splits)
qed

text \<open>
  The function compiled from the turbo tier's source, for each of the two kinds of access
  the template library may write.
\<close>

lemma call_turbo_source_optional:
  "call (QuicklyExtractValueAtPath (turbo_source OptionalAccess path fallback)) v =
     (case opt_chain path v of
        Inl err \<Rightarrow> Inl err
      | Inr x \<Rightarrow> Inr (if fallback \<noteq> Undefined then coalesce x fallback else x))"
  by (simp add: turbo_source_def Let_def eval_join_optional coalesce_def split: sum.splits)

lemma call_turbo_source_plain:
  "call (QuicklyExtractValueAtPath (turbo_source PlainAccess path fallback)) v =
     (case strict_chain path v of
        Inl err \<Rightarrow> Inl err
      | Inr x \<Rightarrow> Inr (if fallback \<noteq> Undefined then coalesce x fallback else x))"
  by (simp add: turbo_source_def Let_def eval_join_plain coalesce_def split: sum.splits)

lemma path_length_cases:
  obtains k1 where "path = [k1]" | k1 k2 where "path = [k1, k2]"
    | "path = []" | k1 k2 k3 rest where "path = k1 # k2 # k3 # rest"
  by (metis list.exhaust)

lemma call_turbo_function:
  "call (turbo_function OptionalAccess path fallback) v =
     (case opt_chain path v of
        Inl err \<Rightarrow> Inl err
      | Inr x \<Rightarrow> Inr (if fallback \<noteq> Undefined then coalesce x fallback else x))"
proof (cases path rule: path_length_cases)
  case (1 k1)
  then show ?thesis by (simp add: turbo_function_def access1_def split: sum.splits)
next
  case (2 k1 k2)
  then show ?thesis by (simp add: turbo_function_def access2_def split: sum.splits)
next
  case 3
  have "call (turbo_function OptionalAccess path fallback) v
      = call (QuicklyExtractValueAtPath (turbo_source OptionalAccess path fallback)) v"
    using 3 by (simp add: turbo_function_def)
  then show ?thesis by (simp only: call_turbo_source_optional)
next
  case (4 k1 k2 k3 rest)
  have "call (turbo_function OptionalAccess path fallback) v
      = call (QuicklyExtractValueAtPath (turbo_source OptionalAccess path fallback)) v"
    using 4 by (simp add: turbo_function_def)
  then show ?thesis by (simp only: call_turbo_source_optional)
qed

lemma get_prop_keyed:
  "\<not> nullish v \<Longrightarrow> to_key k \<noteq> None \<Longrightarrow> \<exists>x. get_prop v k = Inr x"
  by (auto simp: get_prop_def split: option.splits)

lemma plain_item_to_key: "plain_item k \<Longrightarrow> to_key k \<noteq> None"
  by (cases k) auto

lemma slow_loop_opt_chain:
  "\<forall>k\<in>set path. to_key k \<noteq> None \<Longrightarrow>
   \<exists>w c. slow_loop path v = Inr w \<and> opt_chain path v = Inr c
          \<and> (nullish w \<longleftrightarrow> nullish c) \<and> (\<not> nullish c \<longrightarrow> w = c)"
proof (induction path arbitrary: v)
  case Nil
  then show ?case by simp
next
  case (Cons k path)
  show ?case
  proof (cases "nullish v")
    case True
    then show ?thesis by (simp add: opt_get_def)
  next
    case False
    then obtain x where x: "get_prop v k = Inr x"
      using get_prop_keyed Cons.prems by force
    have "\<forall>k\<in>set path. to_key k \<noteq> None" using Cons.prems by simp
    from Cons.IH [OF this, of x] show ?thesis
      using False x by (simp add: opt_get_def)
  qed
qed

lemma slow_vs_turbo:
  assumes "\<forall>k\<in>set path. to_key k \<noteq> None"
  shows "\<exists>r. call (turbo_function OptionalAccess path fallback) v = Inr r
            \<and> call (SlowlyExtractValueAtPath path fallback) v
                = Inr (if r = Null \<and> fallback = Undefined then Undefined else r)"
proof -
  obtain w c where wc: "slow_loop path v = Inr w" "opt_chain path v = Inr c"
      "nullish w \<longleftrightarrow> nullish c" "\<not> nullish c \<longrightarrow> w = c"
    using slow_loop_opt_chain [OF assms] by blast
  show ?thesis
    using wc by (cases c rule: nullish.cases; cases w rule: nullish.cases)
      (auto simp: call_turbo_function coalesce_def)
qed

lemma slow_loop_nullish: "nullish w \<Longrightarrow> slow_loop path w = Inr w"
  by (cases path) simp_all

lemma slow_loop_append:
  "slow_loop (p1 @ p2) v =
     (case slow_loop p1 v of Inl err \<Rightarrow> Inl err | Inr w \<Rightarrow> slow_loop p2 w)"
proof (induction p1 arbitrary: v)
  case Nil
  then show ?case by simp
next
  case (Cons k p1)
  then show ?case by (simp add: slow_loop_nullish split: sum.splits)
qed

lemma keyed_items:
  assumes "select_mode path = Inr m"
  shows "\<forall>k\<in>set path. to_key k \<noteq> None"
proof
  fix k assume "k \<in> set path"
  moreover have "\<not> (\<exists>x\<in>set path. invalid_item x)"
    using assms select_mode_isl [of path] by simp
  ultimately have "\<not> invalid_item k" by blast
  then show "to_key k \<noteq> None" by (cases k) simp_all
qed

lemma factory_body_Suc: "factory_body (Suc n) = Get (factory_body n) (Param n)"
  by (simp add: factory_body_def join_onto_def)

lemma factory_body_0: "factory_body 0 = Value"
  by (simp add: factory_body_def join_onto_def)

lemma literals_factory_body: "literals (factory_body n) = []"
  by (induction n) (simp_all add: factory_body_0 factory_body_Suc)

lemma strict_chain_snoc:
  "strict_chain (ks @ [k]) v =
     (case strict_chain ks v of Inl err \<Rightarrow> Inl err | Inr x \<Rightarrow> get_prop x k)"
  by (induction ks arbitrary: v) (auto split: sum.splits)

lemma eval_factory_body:
  "n \<le> length args \<Longrightarrow> eval args v (factory_body n) = strict_chain (take n args) v"
proof (induction n)
  case 0
  then show ?case by (simp add: factory_body_0)
next
  case (Suc n)
  then have "take (Suc n) args = take n args @ [args ! n]"
    by (simp add: take_Suc_conv_app_nth)
  then show ?case using Suc
    by (simp add: factory_body_Suc strict_chain_snoc split: sum.splits)
qed

lemma call_factory_closure:
  "call (FactoryClosure (Factory (length path) (factory_body (length path))) path) v
     = strict_chain path v"
  by (simp add: eval_factory_body)

text \<open>
  With at most two items the turbo tier's function does not depend on the library: it is
  a closure of \<^verbatim>\<open>access1\<close> or \<^verbatim>\<open>access2\<close>, or, for the empty path, the function
  compiled from a source with no access.
\<close>

lemma turbo_function_short:
  "length path \<le> 2 \<Longrightarrow> turbo_function tg path fallback = turbo_function OptionalAccess path fallback"
  by (cases path rule: path_length_cases)
    (simp_all add: turbo_function_def turbo_source_def join_onto_def)

lemma call_turbo_function_plain:
  "call (turbo_function PlainAccess path fallback) v = Inr r
     \<Longrightarrow> call (turbo_function OptionalAccess path fallback) v = Inr r"
proof (cases path rule: path_length_cases)
  case (4 k1 k2 k3 rest)
  assume r: "call (turbo_function PlainAccess path fallback) v = Inr r"
  have p: "call (turbo_function PlainAccess path fallback) v
      = call (QuicklyExtractValueAtPath (turbo_source PlainAccess path fallback)) v"
    and o: "call (turbo_function OptionalAccess path fallback) v
      = call (QuicklyExtractValueAtPath (turbo_source OptionalAccess path fallback)) v"
    using 4 by (simp_all add: turbo_function_def)
  obtain x where x: "strict_chain path v = Inr x"
    using r unfolding p call_turbo_source_plain by (cases "strict_chain path v") simp_all
  then have "opt_chain path v = Inr x" by (rule strict_chain_opt_chain)
  then show ?thesis using r x unfolding p o call_turbo_source_plain call_turbo_source_optional
    by simp
qed (use turbo_function_short [of path PlainAccess fallback] in simp_all)

lemma call_turbo_function_any:
  "call (turbo_function tg path fallback) v = Inr r
     \<Longrightarrow> call (turbo_function OptionalAccess path fallback) v = Inr r"
  by (cases tg) (simp_all add: call_turbo_function_plain)

lemma call_turbo_function_returns:
  assumes "length path \<le> 2 \<or> tg = OptionalAccess \<or> \<not> isl (strict_chain path v)"
      and "\<forall>k\<in>set path. to_key k \<noteq> None"
  shows "\<not> isl (call (turbo_function tg path fallback) v)"
proof -
  have opt: "\<not> isl (call (turbo_function OptionalAccess path fallback) v)"
  proof -
    obtain w c where "opt_chain path v = Inr c"
      using slow_loop_opt_chain [OF assms(2)] by blast
    then show ?thesis by (simp add: call_turbo_function)
  qed
  show ?thesis
  proof (cases "length path \<le> 2 \<or> tg = OptionalAccess")
    case True
    then have "turbo_function tg path fallback = turbo_function OptionalAccess path fallback"
      using turbo_function_short [of path tg fallback] by blast
    then show ?thesis using opt by simp
  next
    case False
    then have tg: "tg = PlainAccess" and s: "\<not> isl (strict_chain path v)" and l: "2 < length path"
      using assms(1) by (cases tg; auto)+
    have "call (turbo_function PlainAccess path fallback) v
      = call (QuicklyExtractValueAtPath (turbo_source PlainAccess path fallback)) v"
      using l by (cases path rule: path_length_cases) (simp_all add: turbo_function_def)
    then show ?thesis using s tg unfolding call_turbo_source_plain
      by (cases "strict_chain path v") simp_all
  qed
qed


section \<open>The middle tier's function\<close>

text \<open>
  C2 (the code at the input where it parts from the claim). The path
  \<^verbatim>\<open>["a","b","c","d","e","f"]\<close> with the fallback 7 is compiled in middle mode, to
  \<^verbatim>\<open>(_meta, value) => value[p0][p1][p2][p3][p4][p5]\<close>. On the value \<^verbatim>\<open>{}\<close>, where the
  intermediate key \<^verbatim>\<open>a\<close> is missing, the function throws a \<^verbatim>\<open>TypeError\<close>; on a value
  where only the last key is missing, it returns \<^verbatim>\<open>undefined\<close> and not the fallback.
\<close>

theorem C2_middle_tier_throws:
  "\<exists>st'. constructDestructureFunction tg
            [Str ''a'', Str ''b'', Str ''c'', Str ''d'', Str ''e'', Str ''f''] (Num (Fin 7))
            (Extern 0) initial = Inr st'
     \<and> calls (run_batch st')
         = [(Extern 0, FactoryClosure (Factory 6 (factory_body 6))
                         [Str ''a'', Str ''b'', Str ''c'', Str ''d'', Str ''e'', Str ''f''])]
     \<and> call (FactoryClosure (Factory 6 (factory_body 6))
                [Str ''a'', Str ''b'', Str ''c'', Str ''d'', Str ''e'', Str ''f''])
          (Obj 0 []) = Inl TypeError
     \<and> call (FactoryClosure (Factory 6 (factory_body 6))
                [Str ''a'', Str ''b'', Str ''c'', Str ''d'', Str ''e'', Str ''f''])
          (Obj 0 [(KStr ''a'', Obj 1 [(KStr ''b'', Obj 2 [(KStr ''c'', Obj 3 [(KStr ''d'',
             Obj 4 [(KStr ''e'', Obj 5 [])])])])])]) = Inr Undefined"
  by (simp add: select_mode_def initial_mode_def constructDestructureFunction_def
      construct_middle_def middle_signature_def initial_def done_factory_def factory_array_def
      invoke_def run_batch_def factory_body_def join_onto_def upt_rec get_prop_def Let_def)


section \<open>Properties of the traversal of a plan\<close>

lemma concat_buckets_of:
  "concat (map bucket_steps (concat (map buckets_of bs))) = children_steps bs"
  by (induction bs) (simp_all add: children_steps_def all_steps_def)

lemma all_steps_Bucket:
  "all_steps (Bucket i steps children) = steps @ children_steps children"
  using concat_buckets_of [of children] by (simp add: all_steps_def)

lemma children_steps_simps [simp]:
  "children_steps [] = []"
  "children_steps (b # bs) = all_steps b @ children_steps bs"
  by (simp_all add: children_steps_def)

lemma add_dependent_fields [simp]:
  "stepById (add_dependent step depId st) = stepById st"
  "sortedSteps (add_dependent step depId st) = sortedSteps st"
  "layerPlanById (add_dependent step depId st) = layerPlanById st"
  by (simp_all add: add_dependent_def split: option.splits)

lemma fold_add_dependent_fields [simp]:
  "stepById (fold (add_dependent step) ds st) = stepById st"
  "sortedSteps (fold (add_dependent step) ds st) = sortedSteps st"
  "layerPlanById (fold (add_dependent step) ds st) = layerPlanById st"
  by (induction ds arbitrary: st) simp_all

lemma registered_refl: "registered st [] st"
  by (simp add: registered_def)

lemma registered_layer [simp]:
  "registered (st\<lparr>layerPlanById := l\<rparr>) xs st' = registered st xs st'"
  by (simp add: registered_def)

lemma free_ids_layer [simp]:
  "free_ids xs (st\<lparr>layerPlanById := l\<rparr>) = free_ids xs st"
  by (simp add: free_ids_def)

lemma registered_trans:
  assumes a: "registered st xs st1" and b: "registered st1 ys st2"
      and d: "stepId ` set xs \<inter> stepId ` set ys = {}"
  shows "registered st (xs @ ys) st2"
proof -
  have "dom (stepById st2) = dom (stepById st) \<union> stepId ` set (xs @ ys)"
    using a b by (auto simp: registered_def)
  moreover have "\<forall>s\<in>set (xs @ ys). stepById st2 (stepId s) = Some s"
  proof
    fix s assume "s \<in> set (xs @ ys)"
    then consider "s \<in> set ys" | "s \<in> set xs" "stepId s \<notin> stepId ` set ys"
      using d by auto
    then show "stepById st2 (stepId s) = Some s"
    proof cases
      case 1
      then show ?thesis using b by (simp add: registered_def)
    next
      case 2
      then have "stepById st2 (stepId s) = stepById st1 (stepId s)"
        using b by (simp add: registered_def)
      then show ?thesis using a 2 by (simp add: registered_def)
    qed
  qed
  moreover have "\<forall>k. k \<notin> stepId ` set (xs @ ys) \<longrightarrow> stepById st2 k = stepById st k"
    using a b by (simp add: registered_def image_Un)
  moreover have "mset (sortedSteps st2) = mset (sortedSteps st) + mset (xs @ ys)"
    using a b by (simp add: registered_def)
  ultimately show ?thesis unfolding registered_def by blast
qed

lemma registered_mset:
  assumes "registered st xs st'" and "mset xs = mset ys"
  shows "registered st ys st'"
proof -
  have "set xs = set ys" using assms(2) by (rule mset_eq_setD)
  then show ?thesis using assms unfolding registered_def by simp
qed

lemma free_ids_mset:
  assumes "mset xs = mset ys"
  shows "free_ids xs st = free_ids ys st"
proof -
  have "set xs = set ys" using assms by (rule mset_eq_setD)
  moreover have "mset (map stepId xs) = mset (map stepId ys)" using assms by simp
  then have "distinct (map stepId xs) = distinct (map stepId ys)"
    by (rule mset_eq_imp_distinct_iff)
  ultimately show ?thesis by (simp add: free_ids_def)
qed

lemma free_ids_append:
  assumes "registered st xs st1"
  shows "free_ids (xs @ ys) st \<longleftrightarrow> free_ids xs st \<and> free_ids ys st1"
  using assms unfolding free_ids_def registered_def by auto

lemma register_step_cases:
  "(free_ids [step] st \<longrightarrow> (\<exists>st'. register_step step st = Inr st' \<and> registered st [step] st'))
   \<and> (\<not> free_ids [step] st \<longrightarrow> register_step step st = Inl (StepDuplicated (stepId step)))"
  by (auto simp: register_step_def free_ids_def registered_def)

lemma register_steps_cases:
  "(free_ids xs st \<longrightarrow> (\<exists>st'. register_steps xs st = Inr st' \<and> registered st xs st'))
   \<and> (\<not> free_ids xs st \<longrightarrow> (\<exists>k. register_steps xs st = Inl (StepDuplicated k)))"
proof (induction xs arbitrary: st)
  case Nil
  then show ?case by (simp add: registered_refl free_ids_def)
next
  case (Cons x xs)
  show ?case
  proof (cases "free_ids [x] st")
    case False
    then have "\<not> free_ids (x # xs) st" by (auto simp: free_ids_def)
    then show ?thesis using False register_step_cases [of x st] by auto
  next
    case True
    then obtain st1 where st1: "register_step x st = Inr st1" "registered st [x] st1"
      using register_step_cases [of x st] by blast
    have split: "free_ids (x # xs) st \<longleftrightarrow> free_ids xs st1"
      using free_ids_append [OF st1(2), of xs] True by simp
    show ?thesis
    proof (cases "free_ids xs st1")
      case False
      then show ?thesis using st1 split Cons.IH [of st1] by auto
    next
      case t: True
      then obtain st2 where st2: "register_steps xs st1 = Inr st2" "registered st1 xs st2"
        using Cons.IH [of st1] by blast
      have "stepId ` set [x] \<inter> stepId ` set xs = {}"
        using t split by (auto simp: free_ids_def)
      from registered_trans [OF st1(2) st2(2) this]
      show ?thesis using st1 st2 split t by simp
    qed
  qed
qed

lemma sort_steps_mset [simp]: "mset (sort_steps xs) = mset xs"
  by (simp add: sort_steps_def)

lemma extract_cases:
  "(free_ids (all_steps b) st \<longrightarrow>
      (\<exists>st'. extractSteps b st = Inr st' \<and> registered st (all_steps b) st'))
   \<and> (\<not> free_ids (all_steps b) st \<longrightarrow> (\<exists>k. extractSteps b st = Inl (StepDuplicated k)))"
  "(free_ids (children_steps bs) st \<longrightarrow>
      (\<exists>st'. extractChildren bs st = Inr st' \<and> registered st (children_steps bs) st'))
   \<and> (\<not> free_ids (children_steps bs) st \<longrightarrow> (\<exists>k. extractChildren bs st = Inl (StepDuplicated k)))"
proof (induction b st and bs st rule: extractSteps_extractChildren.induct)
  case (1 i steps children st)
  let ?st0 = "st\<lparr>layerPlanById := (layerPlanById st)(i \<mapsto> Bucket i steps children)\<rparr>"
  have fs: "free_ids (sort_steps steps) ?st0 = free_ids steps st"
    using free_ids_mset [of "sort_steps steps" steps] by simp
  show ?case
  proof (cases "free_ids steps st")
    case False
    then have "\<not> free_ids (all_steps (Bucket i steps children)) st"
      by (auto simp: all_steps_Bucket free_ids_def)
    moreover obtain k where "register_steps (sort_steps steps) ?st0 = Inl (StepDuplicated k)"
      using False fs register_steps_cases [of "sort_steps steps" ?st0] by auto
    ultimately show ?thesis by simp
  next
    case True
    then obtain st1 where st1: "register_steps (sort_steps steps) ?st0 = Inr st1"
        "registered ?st0 (sort_steps steps) st1"
      using fs register_steps_cases [of "sort_steps steps" ?st0] by auto
    have r1: "registered st steps st1"
      using registered_mset [OF st1(2), of steps] by simp
    have split: "free_ids (all_steps (Bucket i steps children)) st \<longleftrightarrow> free_ids (children_steps children) st1"
      using free_ids_append [OF r1, of "children_steps children"] True
      by (simp add: all_steps_Bucket)
    note IH = "1.IH" [OF st1(1)]
    show ?thesis
    proof (cases "free_ids (children_steps children) st1")
      case False
      then show ?thesis using IH st1 split by auto
    next
      case t: True
      then obtain st2 where st2: "extractChildren children st1 = Inr st2"
          "registered st1 (children_steps children) st2"
        using IH by blast
      have "stepId ` set steps \<inter> stepId ` set (children_steps children) = {}"
        using split t by (auto simp: free_ids_def all_steps_Bucket)
      from registered_trans [OF r1 st2(2) this]
      show ?thesis using st1 st2 split t by (simp add: all_steps_Bucket)
    qed
  qed
next
  case (2 st)
  then show ?case by (simp add: registered_refl free_ids_def)
next
  case (3 child rest st)
  show ?case
  proof (cases "free_ids (all_steps child) st")
    case False
    then have "\<not> free_ids (children_steps (child # rest)) st"
      by (auto simp: free_ids_def)
    then show ?thesis using False "3.IH"(1) by auto
  next
    case True
    then obtain st1 where st1: "extractSteps child st = Inr st1"
        "registered st (all_steps child) st1"
      using "3.IH"(1) by blast
    have split: "free_ids (children_steps (child # rest)) st \<longleftrightarrow> free_ids (children_steps rest) st1"
      using free_ids_append [OF st1(2), of "children_steps rest"] True by simp
    note IH = "3.IH"(2) [OF st1(1)]
    show ?thesis
    proof (cases "free_ids (children_steps rest) st1")
      case False
      then show ?thesis using IH st1 split by auto
    next
      case t: True
      then obtain st2 where st2: "extractChildren rest st1 = Inr st2"
          "registered st1 (children_steps rest) st2"
        using IH by blast
      have "stepId ` set (all_steps child) \<inter> stepId ` set (children_steps rest) = {}"
        using split t by (auto simp: free_ids_def)
      from registered_trans [OF st1(2) st2(2) this]
      show ?thesis using st1 st2 split t by simp
    qed
  qed
qed


lemma shared_value_not_distinct:
  assumes "i < j" and "j < length xss" and "a \<in> set (xss ! i)" and "b \<in> set (xss ! j)"
      and "f a = f b"
  shows "\<not> distinct (map f (concat xss))"
proof -
  have split: "xss = take j xss @ xss ! j # drop (Suc j) xss"
    using assms(2) by (rule id_take_nth_drop)
  have "i < length (take j xss)" using assms(1,2) by simp
  then have "take j xss ! i \<in> set (take j xss)" by (rule nth_mem)
  then have "xss ! i \<in> set (take j xss)" using assms(1) by simp
  then have a: "f a \<in> set (map f (concat (take j xss)))"
    using assms(3) by auto
  have b: "f a \<in> set (map f (xss ! j))"
    using assms(4,5) by auto
  have "concat xss = concat (take j xss) @ xss ! j @ concat (drop (Suc j) xss)"
    by (subst split) simp
  then have "map f (concat xss)
      = map f (concat (take j xss)) @ (map f (xss ! j) @ map f (concat (drop (Suc j) xss)))"
    by simp
  then show ?thesis using a b by (auto simp del: map_concat set_concat)
qed

lemma free_ids_nothing:
  "free_ids xs nothing_extracted \<longleftrightarrow> distinct (map stepId xs)"
  by (simp add: free_ids_def nothing_extracted_def)

text \<open>
  C9. When some step id is in the steps of two distinct buckets of the plan,
  \<^verbatim>\<open>planToMermaid\<close> throws (for a v1 plan, the error of the duplicated step). When the
  step ids of all the buckets are distinct, so that the buckets partition the steps, the
  traversal succeeds, and it registers each step exactly once: \<^verbatim>\<open>sortedSteps\<close> holds the
  steps of the plan, each once, and \<^verbatim>\<open>stepById\<close> holds each step under its id and
  nothing else.
\<close>

theorem C9_steps_partition:
  "((\<exists>i j. i < j \<and> j < length (buckets_of (rootBucket plan))
        \<and> (\<exists>s\<in>set (bucket_steps (buckets_of (rootBucket plan) ! i)).
            \<exists>s'\<in>set (bucket_steps (buckets_of (rootBucket plan) ! j)). stepId s = stepId s'))
     \<longrightarrow> isl (planToMermaid draw plan)
         \<and> (version plan = ''v1'' \<longrightarrow> (\<exists>k. planToMermaid draw plan = Inl (StepDuplicated k))))
   \<and> (distinct (map stepId (all_steps (rootBucket plan))) \<longrightarrow>
       (\<exists>st. extractSteps (rootBucket plan) nothing_extracted = Inr st
          \<and> mset (sortedSteps st) = mset (all_steps (rootBucket plan))
          \<and> dom (stepById st) = stepId ` set (all_steps (rootBucket plan))
          \<and> (\<forall>s\<in>set (all_steps (rootBucket plan)).
                stepById st (stepId s) = Some s \<and> count_list (sortedSteps st) s = 1)
          \<and> (version plan = ''v1'' \<longrightarrow> planToMermaid draw plan = draw st)))"
proof (rule conjI)
  show "(\<exists>i j. i < j \<and> j < length (buckets_of (rootBucket plan))
        \<and> (\<exists>s\<in>set (bucket_steps (buckets_of (rootBucket plan) ! i)).
            \<exists>s'\<in>set (bucket_steps (buckets_of (rootBucket plan) ! j)). stepId s = stepId s'))
     \<longrightarrow> isl (planToMermaid draw plan)
         \<and> (version plan = ''v1'' \<longrightarrow> (\<exists>k. planToMermaid draw plan = Inl (StepDuplicated k)))"
  proof (rule impI)
    assume "\<exists>i j. i < j \<and> j < length (buckets_of (rootBucket plan))
        \<and> (\<exists>s\<in>set (bucket_steps (buckets_of (rootBucket plan) ! i)).
            \<exists>s'\<in>set (bucket_steps (buckets_of (rootBucket plan) ! j)). stepId s = stepId s')"
    then obtain i j s s' where ij: "i < j" "j < length (buckets_of (rootBucket plan))"
        and s: "s \<in> set (bucket_steps (buckets_of (rootBucket plan) ! i))"
               "s' \<in> set (bucket_steps (buckets_of (rootBucket plan) ! j))" "stepId s = stepId s'"
      by blast
    have "\<not> distinct (map stepId (concat (map bucket_steps (buckets_of (rootBucket plan)))))"
      using shared_value_not_distinct
        [of i j "map bucket_steps (buckets_of (rootBucket plan))" s s' stepId] ij s
      by simp
    then have "\<not> free_ids (all_steps (rootBucket plan)) nothing_extracted"
      by (simp add: free_ids_nothing all_steps_def)
    then obtain k where "extractSteps (rootBucket plan) nothing_extracted = Inl (StepDuplicated k)"
      using extract_cases(1) [of "rootBucket plan" nothing_extracted] by blast
    then show "isl (planToMermaid draw plan)
         \<and> (version plan = ''v1'' \<longrightarrow> (\<exists>k. planToMermaid draw plan = Inl (StepDuplicated k)))"
      by (simp add: planToMermaid_def)
  qed
next
  show "distinct (map stepId (all_steps (rootBucket plan))) \<longrightarrow>
       (\<exists>st. extractSteps (rootBucket plan) nothing_extracted = Inr st
          \<and> mset (sortedSteps st) = mset (all_steps (rootBucket plan))
          \<and> dom (stepById st) = stepId ` set (all_steps (rootBucket plan))
          \<and> (\<forall>s\<in>set (all_steps (rootBucket plan)).
                stepById st (stepId s) = Some s \<and> count_list (sortedSteps st) s = 1)
          \<and> (version plan = ''v1'' \<longrightarrow> planToMermaid draw plan = draw st))"
  proof (rule impI)
    assume d: "distinct (map stepId (all_steps (rootBucket plan)))"
    then obtain st where st: "extractSteps (rootBucket plan) nothing_extracted = Inr st"
        "registered nothing_extracted (all_steps (rootBucket plan)) st"
      using extract_cases(1) [of "rootBucket plan" nothing_extracted] free_ids_nothing by blast
    have m: "mset (sortedSteps st) = mset (all_steps (rootBucket plan))"
      using st(2) by (simp add: registered_def nothing_extracted_def)
    have "distinct (all_steps (rootBucket plan))" using d by (simp add: distinct_map)
    then have "distinct (sortedSteps st)" using m by (metis mset_eq_imp_distinct_iff)
    then have c: "\<forall>s\<in>set (all_steps (rootBucket plan)). count_list (sortedSteps st) s = 1"
      using m by (metis distinct_count_atmost_1 count_mset mset_eq_setD)
    show "\<exists>st. extractSteps (rootBucket plan) nothing_extracted = Inr st
          \<and> mset (sortedSteps st) = mset (all_steps (rootBucket plan))
          \<and> dom (stepById st) = stepId ` set (all_steps (rootBucket plan))
          \<and> (\<forall>s\<in>set (all_steps (rootBucket plan)).
                stepById st (stepId s) = Some s \<and> count_list (sortedSteps st) s = 1)
          \<and> (version plan = ''v1'' \<longrightarrow> planToMermaid draw plan = draw st)"
      using st m c by (auto simp: registered_def nothing_extracted_def planToMermaid_def)
  qed
qed

theorem C9_steps_partition_witness:
  "planToMermaid (\<lambda>st. Inr []) example_bad_plan = Inl (StepDuplicated 1)
   \<and> (\<exists>st. extractSteps (rootBucket example_plan) nothing_extracted = Inr st
         \<and> sortedSteps st =
             [\<lparr>stepId = 1, stepClass = ''AccessStep'', bucketId = 0, dependencyIds = [0]\<rparr>,
              \<lparr>stepId = 0, stepClass = ''__ValueStep'', bucketId = 0, dependencyIds = []\<rparr>,
              \<lparr>stepId = 2, stepClass = ''__ItemStep'', bucketId = 1, dependencyIds = [1]\<rparr>]
         \<and> mset (sortedSteps st) = mset (all_steps (rootBucket example_plan)))"
proof -
  have bad: "planToMermaid (\<lambda>st. Inr []) example_bad_plan = Inl (StepDuplicated 1)"
    by (simp add: planToMermaid_def example_bad_plan_def nothing_extracted_def sort_steps_def
        register_step_def add_dependent_def)
  have good: "\<exists>st. extractSteps (rootBucket example_plan) nothing_extracted = Inr st
         \<and> sortedSteps st =
             [\<lparr>stepId = 1, stepClass = ''AccessStep'', bucketId = 0, dependencyIds = [0]\<rparr>,
              \<lparr>stepId = 0, stepClass = ''__ValueStep'', bucketId = 0, dependencyIds = []\<rparr>,
              \<lparr>stepId = 2, stepClass = ''__ItemStep'', bucketId = 1, dependencyIds = [1]\<rparr>]"
    by (simp add: example_plan_def nothing_extracted_def sort_steps_def
        register_step_def add_dependent_def)
  have d: "distinct (map stepId (all_steps (rootBucket example_plan)))"
    by (simp add: example_plan_def all_steps_def)
  show ?thesis
    using C9_steps_partition [of example_plan "\<lambda>st. Inr []"] d bad good by auto
qed


section \<open>Numbers as strings\<close>

lemma digit_char_simps [simp]:
  "digit_char 0 = CHR ''0''" "digit_char 1 = CHR ''1''" "digit_char 2 = CHR ''2''"
  "digit_char 3 = CHR ''3''" "digit_char 4 = CHR ''4''" "digit_char 5 = CHR ''5''"
  "digit_char 6 = CHR ''6''" "digit_char 7 = CHR ''7''" "digit_char 8 = CHR ''8''"
  "digit_char 9 = CHR ''9''" "digit_char (Suc 0) = CHR ''1''"
  by code_simp+

lemma of_char_digit_char: "d < 10 \<Longrightarrow> of_char (digit_char d) = 48 + d"
  by (simp add: digit_char_def)

lemma digit_char_in: "d < 10 \<Longrightarrow> digit_char d \<in> digit_chars"
  by (simp add: digit_chars_def of_char_digit_char)

lemma show_nat_digits: "set (show_nat n) \<subseteq> digit_chars"
proof (induction n rule: show_nat.induct)
  case (1 n)
  show ?case
  proof (cases "n < 10")
    case True
    then show ?thesis by (simp add: show_nat.simps [of n] digit_char_in)
  next
    case False
    then show ?thesis using 1 by (simp add: show_nat.simps [of n] digit_char_in)
  qed
qed

lemma show_nat_nonempty: "show_nat n \<noteq> []"
  by (simp add: show_nat.simps [of n])

lemma read_show_nat: "read_nat (show_nat n) = n"
proof (induction n rule: show_nat.induct)
  case (1 n)
  show ?case
  proof (cases "n < 10")
    case True
    then show ?thesis by (simp add: show_nat.simps [of n] read_nat_def of_char_digit_char)
  next
    case False
    then have "read_nat (show_nat (n div 10)) = n div 10" using 1 by simp
    then show ?thesis using False
      by (simp add: show_nat.simps [of n] read_nat_def of_char_digit_char)
  qed
qed

lemma show_nat_inj: "show_nat n = show_nat m \<Longrightarrow> n = m"
  by (metis read_show_nat)

lemma show_int_inj: "show_int i = show_int j \<Longrightarrow> i = j"
proof -
  assume eq: "show_int i = show_int j"
  have minus: "CHR ''-'' \<notin> digit_chars" by (simp add: digit_chars_def)
  have hd_nat: "hd (show_nat n) \<noteq> CHR ''-''" for n
    using show_nat_digits [of n] show_nat_nonempty [of n] minus
    by (metis hd_in_set subsetD)
  show ?thesis
  proof (cases "i < 0"; cases "j < 0")
    assume "i < 0" "j < 0"
    then have "show_nat (nat (- i)) = show_nat (nat (- j))" using eq by (simp add: show_int_def)
    then have "nat (- i) = nat (- j)" by (rule show_nat_inj)
    then show ?thesis using \<open>i < 0\<close> \<open>j < 0\<close> by simp
  next
    assume "i < 0" "\<not> j < 0"
    then have "CHR ''-'' # show_nat (nat (- i)) = show_nat (nat j)" using eq by (simp add: show_int_def)
    then have "hd (show_nat (nat j)) = CHR ''-''" by (metis list.sel(1))
    then show ?thesis using hd_nat by blast
  next
    assume "\<not> i < 0" "j < 0"
    then have "CHR ''-'' # show_nat (nat (- j)) = show_nat (nat i)" using eq by (simp add: show_int_def)
    then have "hd (show_nat (nat i)) = CHR ''-''" by (metis list.sel(1))
    then show ?thesis using hd_nat by blast
  next
    assume "\<not> i < 0" "\<not> j < 0"
    then have "show_nat (nat i) = show_nat (nat j)" using eq by (simp add: show_int_def)
    then have "nat i = nat j" by (rule show_nat_inj)
    then show ?thesis using \<open>\<not> i < 0\<close> \<open>\<not> j < 0\<close> by simp
  qed
qed

lemma show_int_chars: "set (show_int i) \<subseteq> insert CHR ''-'' digit_chars"
  using show_nat_digits by (auto simp: show_int_def)

lemma show_int_nonempty: "show_int i \<noteq> []"
  by (simp add: show_int_def show_nat_nonempty)


section \<open>Properties of the middle tier\<close>

lemma invoke_fields [simp]:
  "makeDestructureHyperCache (invoke cb fn st) = makeDestructureHyperCache st"
  "makingDestructureHyperCache (invoke cb fn st) = makingDestructureHyperCache st"
  "makeDestructureCache (invoke cb fn st) = makeDestructureCache st"
  "makingDestructureCache (invoke cb fn st) = makingDestructureCache st"
  "hyperArrays (invoke cb fn st) = hyperArrays st"
  "factoryArrays (invoke cb fn st) = factoryArrays st"
  "nextRef (invoke cb fn st) = nextRef st"
  "batch (invoke cb fn st) = batch st"
  "calls (invoke cb fn st) = calls st @ [(cb, fn)]"
  by (simp_all add: invoke_def)

lemma notify_hyper:
  "fold (\<lambda>cb. invoke cb fn) cbs st = st\<lparr>calls := calls st @ map (\<lambda>cb. (cb, fn)) cbs\<rparr>"
  by (induction cbs arbitrary: st) (simp_all add: invoke_def)

lemma notify_factory:
  "fold (\<lambda>(cb, path). invoke cb (FactoryClosure fac path)) cbs st
     = st\<lparr>calls := calls st @ map (\<lambda>(cb, path). (cb, FactoryClosure fac path)) cbs\<rparr>"
  by (induction cbs arbitrary: st) (auto simp: invoke_def)

lemma done_factory_eq:
  "done_factory signature a fac st =
     st\<lparr> makeDestructureCache := (makeDestructureCache st)(signature \<mapsto> fac),
         makingDestructureCache := (makingDestructureCache st)(signature := None),
         calls := calls st @ map (\<lambda>(cb, path). (cb, FactoryClosure fac path)) (factory_array st a) \<rparr>"
  by (simp add: done_factory_def Let_def notify_factory factory_array_def)

lemma done_hyper_eq:
  "done_hyper signature a fn st =
     st\<lparr> makeDestructureHyperCache := lru_set (makeDestructureHyperCache st) signature fn,
         makingDestructureHyperCache := (makingDestructureHyperCache st)(signature := None),
         calls := calls st @ map (\<lambda>cb. (cb, fn)) (hyper_array st a) \<rparr>"
  by (simp add: done_hyper_def Let_def notify_hyper hyper_array_def)

lemma run_job_fields [simp]:
  "batch (run_job j st) = batch st"
  "nextRef (run_job j st) = nextRef st"
  "hyperArrays (run_job j st) = hyperArrays st"
  "factoryArrays (run_job j st) = factoryArrays st"
  by (cases j; simp add: done_hyper_eq done_factory_eq)+

lemma fold_run_job_fields [simp]:
  "batch (fold run_job js st) = batch st"
  "nextRef (fold run_job js st) = nextRef st"
  "hyperArrays (fold run_job js st) = hyperArrays st"
  "factoryArrays (fold run_job js st) = factoryArrays st"
  by (induction js arbitrary: st) simp_all

lemma batch_run_batch [simp]: "batch (run_batch st) = []"
  by (simp add: run_batch_def)

lemma construct_middle_hit:
  assumes "makeDestructureCache st (middle_signature (length path) fallback) = Some fac"
  shows "construct_middle path fallback cb st = invoke cb (FactoryClosure fac path) st"
  using assms by (simp add: construct_middle_def Let_def)

lemma construct_middle_initial_state:
  "construct_middle path fallback cb initial =
     initial\<lparr> factoryArrays := [0 \<mapsto> [(cb, path)]], nextRef := 1,
              makingDestructureCache := [middle_signature (length path) fallback \<mapsto> 0],
              batch := [FactoryJob (length path) (factory_body (length path))
                          (middle_signature (length path) fallback) 0] \<rparr>"
  by (simp add: construct_middle_def initial_def Let_def)


lemma middle_signature_eq_iff:
  "middle_signature n f = middle_signature n' g \<longleftrightarrow> n = n' \<and> (f = Undefined) = (g = Undefined)"
  using show_nat_inj [of n n'] by (auto simp: middle_signature_def)

lemma run_batch_construct_middle_initial:
  "run_batch (construct_middle path fallback cb initial) =
     initial\<lparr> factoryArrays := [0 \<mapsto> [(cb, path)]], nextRef := 1,
              makeDestructureCache :=
                [middle_signature (length path) fallback \<mapsto>
                   Factory (length path) (factory_body (length path))],
              calls := [(cb, FactoryClosure (Factory (length path) (factory_body (length path))) path)] \<rparr>"
  unfolding construct_middle_initial_state
  by (simp add: run_batch_def done_factory_eq factory_array_def initial_def)

text \<open>
  C8. The middle tier's key is a function of the path's length and of whether there is a
  fallback, and of nothing else: two paths that are compiled in middle mode have the same
  key exactly when they have the same length and both have or both lack a fallback. When
  nothing is cached, the first path queues one compilation, of a source that embeds no
  value of the path; once it has run, the cache holds the factory under that key and
  nothing else. The second path is then served by that very factory, called with the
  second path's items as arguments and with no further compilation, when the keys are the
  same, and it queues a compilation of its own when they are not. In any state that has a
  factory cached under the key, a path with that key is served by it. The function the
  factory returns for a path reads the path's items from the factory's parameters: it is
  \<^verbatim>\<open>value[p0]...[p{n-1}]\<close> with the items of the path for the parameters.
\<close>

theorem C8_middle_cache_key:
  assumes "select_mode p = Inr Middle" and "select_mode q = Inr Middle"
  shows "(middle_signature (length p) f = middle_signature (length q) g
            \<longleftrightarrow> length p = length q \<and> (f = Undefined) = (g = Undefined))
     \<and> (\<exists>st1. constructDestructureFunction tg p f cb1 initial = Inr st1
           \<and> batch st1 = [FactoryJob (length p) (factory_body (length p))
                             (middle_signature (length p) f) 0]
           \<and> literals (factory_body (length p)) = []
           \<and> makeDestructureCache (run_batch st1)
               = [middle_signature (length p) f \<mapsto> Factory (length p) (factory_body (length p))]
           \<and> batch (run_batch st1) = []
           \<and> (length p = length q \<and> (f = Undefined) = (g = Undefined) \<longrightarrow>
                constructDestructureFunction tg q g cb2 (run_batch st1)
                  = Inr (invoke cb2 (FactoryClosure (Factory (length p) (factory_body (length p))) q)
                           (run_batch st1)))
           \<and> (\<not> (length p = length q \<and> (f = Undefined) = (g = Undefined)) \<longrightarrow>
                (\<exists>st2. constructDestructureFunction tg q g cb2 (run_batch st1) = Inr st2
                   \<and> batch st2 = [FactoryJob (length q) (factory_body (length q))
                                     (middle_signature (length q) g) 1]
                   \<and> calls st2 = calls (run_batch st1))))
     \<and> (\<forall>st fac. makeDestructureCache st (middle_signature (length q) g) = Some fac \<longrightarrow>
           constructDestructureFunction tg q g cb2 st = Inr (invoke cb2 (FactoryClosure fac q) st))
     \<and> (\<forall>v. call (FactoryClosure (Factory (length q) (factory_body (length q))) q) v
              = strict_chain q v)"
proof -
  let ?sp = "middle_signature (length p) f" and ?sq = "middle_signature (length q) g"
  have key: "?sp = ?sq \<longleftrightarrow> length p = length q \<and> (f = Undefined) = (g = Undefined)"
    by (rule middle_signature_eq_iff)
  have hit: "\<forall>st fac. makeDestructureCache st ?sq = Some fac \<longrightarrow>
           constructDestructureFunction tg q g cb2 st = Inr (invoke cb2 (FactoryClosure fac q) st)"
    using assms(2) by (simp add: constructDestructureFunction_def construct_middle_hit)
  let ?st1 = "construct_middle p f cb1 initial"
  have c: "constructDestructureFunction tg p f cb1 initial = Inr ?st1"
    using assms(1) by (simp add: constructDestructureFunction_def)
  have b: "batch ?st1 = [FactoryJob (length p) (factory_body (length p)) ?sp 0]"
    by (simp add: construct_middle_initial_state)
  have m: "makeDestructureCache (run_batch ?st1)
               = [?sp \<mapsto> Factory (length p) (factory_body (length p))]"
    unfolding run_batch_construct_middle_initial by (simp add: initial_def)
  have same: "length p = length q \<and> (f = Undefined) = (g = Undefined) \<longrightarrow>
      constructDestructureFunction tg q g cb2 (run_batch ?st1)
        = Inr (invoke cb2 (FactoryClosure (Factory (length p) (factory_body (length p))) q)
                 (run_batch ?st1))"
  proof
    assume "length p = length q \<and> (f = Undefined) = (g = Undefined)"
    then have "makeDestructureCache (run_batch ?st1) ?sq
        = Some (Factory (length p) (factory_body (length p)))"
      using m key by simp
    then show "constructDestructureFunction tg q g cb2 (run_batch ?st1)
        = Inr (invoke cb2 (FactoryClosure (Factory (length p) (factory_body (length p))) q)
                 (run_batch ?st1))"
      using hit by blast
  qed
  have other: "\<not> (length p = length q \<and> (f = Undefined) = (g = Undefined)) \<longrightarrow>
      (\<exists>st2. constructDestructureFunction tg q g cb2 (run_batch ?st1) = Inr st2
         \<and> batch st2 = [FactoryJob (length q) (factory_body (length q)) ?sq 1]
         \<and> calls st2 = calls (run_batch ?st1))"
  proof
    assume "\<not> (length p = length q \<and> (f = Undefined) = (g = Undefined))"
    then have ne: "?sq \<noteq> ?sp" using key by auto
    have "constructDestructureFunction tg q g cb2 (run_batch ?st1)
        = Inr (construct_middle q g cb2 (run_batch ?st1))"
      using assms(2) by (simp add: constructDestructureFunction_def)
    moreover have "batch (construct_middle q g cb2 (run_batch ?st1))
        = [FactoryJob (length q) (factory_body (length q)) ?sq 1]"
      "calls (construct_middle q g cb2 (run_batch ?st1)) = calls (run_batch ?st1)"
      using ne unfolding run_batch_construct_middle_initial
      by (simp_all add: construct_middle_def Let_def initial_def)
    ultimately show "\<exists>st2. constructDestructureFunction tg q g cb2 (run_batch ?st1) = Inr st2
         \<and> batch st2 = [FactoryJob (length q) (factory_body (length q)) ?sq 1]
         \<and> calls st2 = calls (run_batch ?st1)"
      by simp
  qed
  show ?thesis
    using key hit c b m same other literals_factory_body [of "length p"] call_factory_closure [of q]
    by simp
qed

theorem C8_middle_cache_key_witness:
  "select_mode [Sym 1, Str ''a''] = Inr Middle \<and> select_mode [Str ''x|y'', Sym 2] = Inr Middle
   \<and> select_mode [Sym 3] = Inr Middle
   \<and> middle_signature 2 (Num (Fin 7)) = ''f2'' \<and> middle_signature 2 Null = ''f2''
   \<and> middle_signature 2 Undefined = ''n2'' \<and> middle_signature 1 Null = ''f1''
   \<and> (\<exists>st1. constructDestructureFunction PlainAccess [Sym 1, Str ''a''] (Num (Fin 7)) (Extern 0) initial
                = Inr st1
        \<and> batch st1 = [FactoryJob 2 (Get (Get Value (Param 0)) (Param 1)) ''f2'' 0]
        \<and> makeDestructureCache (run_batch st1)
            = [''f2'' \<mapsto> Factory 2 (Get (Get Value (Param 0)) (Param 1))]
        \<and> constructDestructureFunction PlainAccess [Str ''x|y'', Sym 2] Null (Extern 1) (run_batch st1)
            = Inr (invoke (Extern 1)
                    (FactoryClosure (Factory 2 (Get (Get Value (Param 0)) (Param 1)))
                       [Str ''x|y'', Sym 2]) (run_batch st1))
        \<and> (\<exists>st2. constructDestructureFunction PlainAccess [Sym 3] Null (Extern 1) (run_batch st1)
                     = Inr st2
               \<and> batch st2 = [FactoryJob 1 (Get Value (Param 0)) ''f1'' 1]))"
proof -
  have m: "select_mode [Sym 1, Str ''a''] = Inr Middle" "select_mode [Str ''x|y'', Sym 2] = Inr Middle"
    "select_mode [Sym 3] = Inr Middle"
    by (simp_all add: select_mode_def initial_mode_def)
  have s: "middle_signature 2 (Num (Fin 7)) = ''f2''" "middle_signature 2 Null = ''f2''"
    "middle_signature 2 Undefined = ''n2''" "middle_signature 1 Null = ''f1''"
    by (simp_all add: middle_signature_def show_nat.simps)
  have fb: "factory_body 2 = Get (Get Value (Param 0)) (Param 1)" "factory_body 1 = Get Value (Param 0)"
    by (simp_all add: factory_body_def join_onto_def upt_rec)
  have n: "length [Sym 1, Str ''a''] = 2" "length [Str ''x|y'', Sym 2] = 2" "length [Sym 3] = 1"
    by simp_all
  note a = C8_middle_cache_key [OF m(1) m(2), of "Num (Fin 7)" Null PlainAccess "Extern 0" "Extern 1",
      unfolded n s fb]
  note b = C8_middle_cache_key [OF m(1) m(3), of "Num (Fin 7)" Null PlainAccess "Extern 0" "Extern 1",
      unfolded n s fb]
  show ?thesis
    using a b m s by auto
qed


section \<open>Coalescing of compilations\<close>

lemma consistent_initial: "consistent initial"
  by (simp add: consistent_def hyper_ok_def factory_ok_def initial_def)

lemma consistent_invoke: "consistent st \<Longrightarrow> consistent (invoke cb fn st)"
  by (simp add: consistent_def hyper_ok_def factory_ok_def)

lemma consistent_calls [simp]: "consistent (st\<lparr>calls := c\<rparr>) = consistent st"
  by (simp add: consistent_def hyper_ok_def factory_ok_def)

lemma consistent_hyperArrays_upd:
  "consistent st \<Longrightarrow> consistent (st\<lparr>hyperArrays := (hyperArrays st)(a \<mapsto> x)\<rparr>)"
  by (simp add: consistent_def hyper_ok_def factory_ok_def)

lemma consistent_factoryArrays_upd:
  "consistent st \<Longrightarrow> consistent (st\<lparr>factoryArrays := (factoryArrays st)(a \<mapsto> x)\<rparr>)"
  by (simp add: consistent_def hyper_ok_def factory_ok_def)

lemma consistent_construct_middle:
  assumes "consistent st"
  shows "consistent (construct_middle path fallback cb st)"
proof -
  let ?sig = "middle_signature (length path) fallback"
  show ?thesis
  proof (cases "makeDestructureCache st ?sig")
    case (Some fac)
    then show ?thesis using assms by (simp add: construct_middle_hit consistent_invoke)
  next
    case None
    show ?thesis
    proof (cases "makingDestructureCache st ?sig")
      case (Some a)
      then show ?thesis using None assms
        by (simp add: construct_middle_def Let_def consistent_factoryArrays_upd)
    next
      case n: None
      have "hyper_ok (construct_middle path fallback cb st) s
            \<and> factory_ok (construct_middle path fallback cb st) s" for s
      proof -
        have h: "hyper_ok st s" and f: "factory_ok st s" and f0: "factory_ok st ?sig"
          using assms by (simp_all add: consistent_def)
        have "hyper_ok (construct_middle path fallback cb st) s"
          using h None n by (auto simp: construct_middle_def Let_def hyper_ok_def split: option.splits)
        moreover have "factory_ok (construct_middle path fallback cb st) s"
          using f f0 None n
          by (auto simp: construct_middle_def Let_def factory_ok_def split: option.splits)
        ultimately show ?thesis ..
      qed
      then show ?thesis by (simp add: consistent_def)
    qed
  qed
qed


lemma map_of_filter_other:
  "k' \<noteq> k \<Longrightarrow> map_of (filter (\<lambda>e. fst e \<noteq> k) c) k' = map_of c k'"
  by (induction c) auto

lemma map_of_lru_get: "map_of (snd (lru_get c k)) = map_of c"
proof (cases "map_of c k")
  case None
  then show ?thesis by (simp add: lru_get_def)
next
  case (Some fn)
  have "map_of ((k, fn) # filter (\<lambda>e. fst e \<noteq> k) c) k' = map_of c k'" for k'
    using Some by (cases "k' = k") (simp_all add: map_of_filter_other)
  then show ?thesis using Some by (auto simp: lru_get_def)
qed

lemma lru_get_miss: "map_of c k = None \<Longrightarrow> lru_get c k = (None, c)"
  by (simp add: lru_get_def)

lemma lru_get_hit: "map_of c k = Some fn \<Longrightarrow> fst (lru_get c k) = Some fn"
  by (simp add: lru_get_def)

lemma fst_lru_get: "fst (lru_get c k) = map_of c k"
  by (simp add: lru_get_def split: option.splits)

lemma map_of_lru_set_other:
  assumes "map_of c k' = None" and "k' \<noteq> k"
  shows "map_of (lru_set c k fn) k' = None"
proof -
  have "k' \<notin> fst ` set ((k, fn) # filter (\<lambda>e. fst e \<noteq> k) c)"
    using assms by (auto simp: map_of_eq_None_iff)
  then have "k' \<notin> fst ` set (take maxLength ((k, fn) # filter (\<lambda>e. fst e \<noteq> k) c))"
    using set_take_subset by fastforce
  then show ?thesis by (simp add: lru_set_def map_of_eq_None_iff)
qed

lemma map_of_lru_set_same: "map_of (lru_set c k fn) k = Some fn"
  by (simp add: lru_set_def maxLength_def)

lemma consistent_construct_turbo:
  assumes c: "consistent st" and r: "construct_turbo tg path fallback cb st = Inr st'"
  shows "consistent st'"
proof -
  obtain signature where sig: "js_join path ''|'' = Inr signature"
    using r by (auto simp: construct_turbo_def split: sum.splits)
  let ?cache = "snd (lru_get (makeDestructureHyperCache st) signature)"
  let ?st0 = "st\<lparr>makeDestructureHyperCache := ?cache\<rparr>"
  have c0: "consistent ?st0"
    using c by (simp add: consistent_def hyper_ok_def factory_ok_def map_of_lru_get)
  show ?thesis
  proof (cases "map_of (makeDestructureHyperCache st) signature")
    case (Some fn)
    then have "st' = invoke cb fn ?st0"
      using r sig by (simp add: construct_turbo_def lru_get_def)
    then show ?thesis using c0 by (simp add: consistent_invoke)
  next
    case None
    then have st0: "?st0 = st" by (simp add: lru_get_def)
    show ?thesis
    proof (cases "makingDestructureHyperCache st signature")
      case (Some a)
      then have "st' = st\<lparr>hyperArrays := (hyperArrays st)(a \<mapsto> hyper_array st a @ [cb])\<rparr>"
        using r sig None by (simp add: construct_turbo_def lru_get_def)
      then show ?thesis using c by (simp add: consistent_hyperArrays_upd)
    next
      case n: None
      let ?a = "nextRef st"
      let ?st1 = "st\<lparr> hyperArrays := (hyperArrays st)(?a \<mapsto> [cb]), nextRef := Suc ?a,
                       makingDestructureHyperCache := (makingDestructureHyperCache st)(signature \<mapsto> ?a) \<rparr>"
      have sync: "consistent (done_hyper signature ?a fn ?st1)" for fn
      proof -
        have "hyper_ok (done_hyper signature ?a fn ?st1) s
              \<and> factory_ok (done_hyper signature ?a fn ?st1) s" for s
        proof -
          have h: "hyper_ok st s" and f: "factory_ok st s"
            using c by (simp_all add: consistent_def)
          have "hyper_ok (done_hyper signature ?a fn ?st1) s"
            using h n by (auto simp: done_hyper_eq hyper_ok_def map_of_lru_set_other)
          moreover have "factory_ok (done_hyper signature ?a fn ?st1) s"
            using f by (auto simp: done_hyper_eq factory_ok_def)
          ultimately show ?thesis ..
        qed
        then show ?thesis by (simp add: consistent_def)
      qed
      have queued: "consistent (?st1\<lparr>batch := batch ?st1 @ [FunctionJob e signature ?a]\<rparr>)" for e
      proof -
        let ?st2 = "?st1\<lparr>batch := batch ?st1 @ [FunctionJob e signature ?a]\<rparr>"
        have "hyper_ok ?st2 s \<and> factory_ok ?st2 s" for s
        proof -
          have h: "hyper_ok st s" and f: "factory_ok st s" and h0: "hyper_ok st signature"
            using c by (simp_all add: consistent_def)
          have "hyper_ok ?st2 s"
            using h h0 n None by (auto simp: hyper_ok_def)
          moreover have "factory_ok ?st2 s"
            using f by (auto simp: factory_ok_def)
          ultimately show ?thesis ..
        qed
        then show ?thesis by (simp add: consistent_def)
      qed
      have "st' = (case path of
                     [key1] \<Rightarrow> done_hyper signature ?a (access1 key1 fallback) ?st1
                   | [key1, key2] \<Rightarrow> done_hyper signature ?a (access2 key1 key2 fallback) ?st1
                   | _ \<Rightarrow> ?st1\<lparr>batch := batch ?st1 @
                                [FunctionJob (turbo_source tg path fallback) signature ?a]\<rparr>)"
        using r sig None n by (simp add: construct_turbo_def lru_get_def Let_def split: list.splits)
      then show ?thesis using sync queued by (simp split: list.splits)
    qed
  qed
qed

lemma consistent_construct:
  assumes "consistent st" and "constructDestructureFunction tg path fallback cb st = Inr st'"
  shows "consistent st'"
proof (cases "select_mode path")
  case (Inl err)
  then show ?thesis using assms by (simp add: constructDestructureFunction_def)
next
  case (Inr m)
  then show ?thesis using assms consistent_construct_turbo [of st tg path fallback cb st']
    by (cases m) (auto simp: constructDestructureFunction_def consistent_invoke
        consistent_construct_middle)
qed

lemma fold_run_job_making_hyper:
  "makingDestructureHyperCache (fold run_job js st) signature =
     (if filter (compiles_hyper signature) js = [] then makingDestructureHyperCache st signature
      else None)"
proof (induction js arbitrary: st)
  case Nil
  then show ?case by simp
next
  case (Cons j js)
  then show ?case by (cases j) (auto simp: done_hyper_eq done_factory_eq)
qed

lemma fold_run_job_making_factory:
  "makingDestructureCache (fold run_job js st) signature =
     (if filter (compiles_factory signature) js = [] then makingDestructureCache st signature
      else None)"
proof (induction js arbitrary: st)
  case Nil
  then show ?case by simp
next
  case (Cons j js)
  then show ?case by (cases j) (auto simp: done_hyper_eq done_factory_eq)
qed

lemma run_batch_making:
  assumes "consistent st"
  shows "makingDestructureHyperCache (run_batch st) signature = None"
    and "makingDestructureCache (run_batch st) signature = None"
proof -
  have h: "hyper_ok st signature" and f: "factory_ok st signature"
    using assms by (simp_all add: consistent_def)
  show "makingDestructureHyperCache (run_batch st) signature = None"
    using h by (cases "makingDestructureHyperCache st signature")
      (auto simp: run_batch_def fold_run_job_making_hyper hyper_ok_def)
  show "makingDestructureCache (run_batch st) signature = None"
    using f by (cases "makingDestructureCache st signature")
      (auto simp: run_batch_def fold_run_job_making_factory factory_ok_def)
qed

lemma consistent_run_batch:
  assumes "consistent st"
  shows "consistent (run_batch st)"
  using run_batch_making [OF assms]
  by (simp add: consistent_def hyper_ok_def factory_ok_def)

lemma consistent_step: "consistent st \<Longrightarrow> consistent (apply_event tg ev st)"
  by (cases ev) (auto simp: consistent_run_batch consistent_construct split: sum.splits)

lemma consistent_fold: "consistent st \<Longrightarrow> consistent (fold (apply_event tg) evs st)"
  by (induction evs arbitrary: st) (simp_all add: consistent_step)

lemma consistent_run: "consistent (run tg evs)"
  by (simp add: run_def consistent_fold consistent_initial)


lemma notified_run_job [simp]: "notified (run_job j st) = notified st"
proof
  fix k show "notified (run_job j st) k = notified st k"
    by (cases k) (simp_all add: hyper_array_def factory_array_def)
qed

lemma notified_batch [simp]: "notified (st\<lparr>batch := b\<rparr>) = notified st"
proof
  fix k show "notified (st\<lparr>batch := b\<rparr>) k = notified st k"
    by (cases k) (simp_all add: hyper_array_def factory_array_def)
qed

lemma calls_run_job: "calls (run_job j st) = calls st @ notified st j"
  by (cases j) (simp_all add: done_hyper_eq done_factory_eq)

lemma calls_fold_run_job:
  "calls (fold run_job js st) = calls st @ concat (map (notified st) js)"
  by (induction js arbitrary: st) (simp_all add: calls_run_job)

lemma calls_run_batch:
  "calls (run_batch st) = calls st @ concat (map (notified st) (batch st))"
  by (simp add: run_batch_def calls_fold_run_job)

lemma notified_calls [simp]: "notified (st\<lparr>calls := c\<rparr>) = notified st"
proof
  fix k show "notified (st\<lparr>calls := c\<rparr>) k = notified st k"
    by (cases k) (simp_all add: hyper_array_def factory_array_def)
qed


text \<open>A request for a signature that is neither cached nor in progress starts a compilation.\<close>

lemma construct_turbo_start:
  assumes "select_mode path = Inr Turbo" and "js_join path ''|'' = Inr signature"
      and "length path \<noteq> 1" and "length path \<noteq> 2"
      and "map_of (makeDestructureHyperCache st) signature = None"
      and "makingDestructureHyperCache st signature = None"
  shows "constructDestructureFunction tg path fallback cb st
           = Inr (st\<lparr> hyperArrays := (hyperArrays st)(nextRef st \<mapsto> [cb]),
                       nextRef := Suc (nextRef st),
                       makingDestructureHyperCache :=
                         (makingDestructureHyperCache st)(signature \<mapsto> nextRef st),
                       batch := batch st @
                         [FunctionJob (turbo_source tg path fallback) signature (nextRef st)] \<rparr>)"
  using assms
  by (cases path rule: path_length_cases)
    (simp_all add: constructDestructureFunction_def construct_turbo_def lru_get_def Let_def)

lemma construct_middle_start:
  assumes "select_mode path = Inr Middle"
      and "makeDestructureCache st (middle_signature (length path) fallback) = None"
      and "makingDestructureCache st (middle_signature (length path) fallback) = None"
  shows "constructDestructureFunction tg path fallback cb st
           = Inr (st\<lparr> factoryArrays := (factoryArrays st)(nextRef st \<mapsto> [(cb, path)]),
                       nextRef := Suc (nextRef st),
                       makingDestructureCache :=
                         (makingDestructureCache st)
                           (middle_signature (length path) fallback \<mapsto> nextRef st),
                       batch := batch st @
                         [FactoryJob (length path) (factory_body (length path))
                            (middle_signature (length path) fallback) (nextRef st)] \<rparr>)"
  using assms by (simp add: constructDestructureFunction_def construct_middle_def Let_def)

text \<open>A request for a signature in progress appends its callback to the array of the job.\<close>

lemma construct_turbo_pending:
  assumes "consistent st" and "makingDestructureHyperCache st signature = Some a"
      and "hyperArrays st a = Some cbs"
      and "select_mode path = Inr Turbo" and "js_join path ''|'' = Inr signature"
  shows "constructDestructureFunction tg path fallback cb st
           = Inr (st\<lparr>hyperArrays := (hyperArrays st)(a \<mapsto> cbs @ [cb])\<rparr>)"
proof -
  have "hyper_ok st signature" using assms(1) by (simp add: consistent_def)
  then have "map_of (makeDestructureHyperCache st) signature = None"
    using assms(2) by (simp add: hyper_ok_def)
  then show ?thesis using assms(2-5)
    by (simp add: constructDestructureFunction_def construct_turbo_def lru_get_def hyper_array_def)
qed

lemma construct_middle_pending:
  assumes "consistent st" and "makingDestructureCache st signature = Some a"
      and "factoryArrays st a = Some cbs"
      and "select_mode path = Inr Middle" and "middle_signature (length path) fallback = signature"
  shows "constructDestructureFunction tg path fallback cb st
           = Inr (st\<lparr>factoryArrays := (factoryArrays st)(a \<mapsto> cbs @ [(cb, path)])\<rparr>)"
proof -
  have "factory_ok st signature" using assms(1) by (simp add: consistent_def)
  then have "makeDestructureCache st signature = None"
    using assms(2) by (simp add: factory_ok_def)
  then show ?thesis using assms(2-5)
    by (simp add: constructDestructureFunction_def construct_middle_def Let_def factory_array_def)
qed

text \<open>The jobs of the queue, in a consistent state.\<close>

lemma hyper_job_marked:
  assumes "consistent st" and "FunctionJob e s a \<in> set (batch st)"
  shows "makingDestructureHyperCache st s = Some a \<and> a < nextRef st"
proof -
  have ok: "hyper_ok st s" using assms(1) by (simp add: consistent_def)
  have mem: "FunctionJob e s a \<in> set (filter (compiles_hyper s) (batch st))"
    using assms(2) by simp
  then have "filter (compiles_hyper s) (batch st) \<noteq> []" by (metis empty_iff empty_set)
  then obtain a' where a': "makingDestructureHyperCache st s = Some a'"
    using ok by (cases "makingDestructureHyperCache st s") (auto simp: hyper_ok_def)
  then obtain e' where "filter (compiles_hyper s) (batch st) = [FunctionJob e' s a']"
      and lt: "a' < nextRef st"
    using ok by (auto simp: hyper_ok_def)
  then have "a = a'" using mem by simp
  then show ?thesis using a' lt by simp
qed

lemma factory_job_marked:
  assumes "consistent st" and "FactoryJob n body s a \<in> set (batch st)"
  shows "makingDestructureCache st s = Some a \<and> a < nextRef st"
proof -
  have ok: "factory_ok st s" using assms(1) by (simp add: consistent_def)
  have mem: "FactoryJob n body s a \<in> set (filter (compiles_factory s) (batch st))"
    using assms(2) by simp
  then have "filter (compiles_factory s) (batch st) \<noteq> []" by (metis empty_iff empty_set)
  then obtain a' where a': "makingDestructureCache st s = Some a'"
    using ok by (cases "makingDestructureCache st s") (auto simp: factory_ok_def)
  then obtain n' body' where "filter (compiles_factory s) (batch st) = [FactoryJob n' body' s a']"
      and lt: "a' < nextRef st"
    using ok by (auto simp: factory_ok_def)
  then have "a = a'" using mem by simp
  then show ?thesis using a' lt by simp
qed

lemma notified_unchanged:
  assumes "consistent st" and "j \<in> set (batch st)"
      and "\<forall>a. a < nextRef st \<longrightarrow> hyperArrays st' a = hyperArrays st a"
      and "\<forall>a. a < nextRef st \<longrightarrow> factoryArrays st' a = factoryArrays st a"
  shows "notified st' j = notified st j"
proof (cases j)
  case (FactoryJob n body s a)
  then have "a < nextRef st" using factory_job_marked assms(1,2) by blast
  then show ?thesis using FactoryJob assms(4) by (simp add: factory_array_def)
next
  case (FunctionJob e s a)
  then have "a < nextRef st" using hyper_job_marked assms(1,2) by blast
  then show ?thesis using FunctionJob assms(3) by (simp add: hyper_array_def)
qed

lemma notified_batch_unchanged:
  assumes "consistent st"
      and "\<forall>a. a < nextRef st \<longrightarrow> hyperArrays st' a = hyperArrays st a"
      and "\<forall>a. a < nextRef st \<longrightarrow> factoryArrays st' a = factoryArrays st a"
  shows "map (notified st') (batch st) = map (notified st) (batch st)"
  using notified_unchanged [OF assms(1) _ assms(2,3)] by (intro map_cong) simp_all

text \<open>
  The function a request is answered with: the slow walker in slow mode; in turbo mode,
  when nothing is cached or in progress under the signature, the turbo tier's function for
  the path and the fallback.
\<close>

lemma delivered_slow:
  assumes "select_mode path = Inr Slow"
  shows "delivered tg st path fallback cb (SlowlyExtractValueAtPath path fallback)"
  using assms
  by (simp add: delivered_def constructDestructureFunction_def calls_run_batch invoke_def
      hyper_array_def factory_array_def)

lemma delivered_turbo:
  assumes c: "consistent st" and m: "select_mode path = Inr Turbo" and miss: "turbo_miss st path"
  shows "delivered tg st path fallback cb (turbo_function tg path fallback)"
proof -
  obtain signature where sig: "js_join path ''|'' = Inr signature"
      and nc: "map_of (makeDestructureHyperCache st) signature = None"
      and nm: "makingDestructureHyperCache st signature = None"
    using miss by (auto simp: turbo_miss_def split: sum.splits)
  let ?a = "nextRef st"
  let ?st1 = "st\<lparr> hyperArrays := (hyperArrays st)(?a \<mapsto> [cb]), nextRef := Suc ?a,
                   makingDestructureHyperCache := (makingDestructureHyperCache st)(signature \<mapsto> ?a) \<rparr>"
  have same: "map (notified st') (batch st) = map (notified st) (batch st)"
    if "hyperArrays st' = (hyperArrays st)(?a \<mapsto> [cb])" "factoryArrays st' = factoryArrays st"
    for st'
    using that by (intro notified_batch_unchanged [OF c]) simp_all
  have sync: "mset (calls (run_batch (done_hyper signature ?a fn ?st1)))
      = mset (calls (run_batch st)) + {#(cb, fn)#}" for fn
  proof -
    let ?X = "done_hyper signature ?a fn ?st1"
    have n: "map (notified ?X) (batch st) = map (notified st) (batch st)"
      by (rule same) (simp_all add: done_hyper_eq)
    have b: "batch ?X = batch st" by (simp add: done_hyper_eq)
    have c: "calls ?X = calls st @ [(cb, fn)]" by (simp add: done_hyper_eq hyper_array_def)
    show ?thesis unfolding calls_run_batch b c n by simp
  qed
  show ?thesis
  proof (cases "length path = 1 \<or> length path = 2")
    case True
    then consider k1 where "path = [k1]" | k1 k2 where "path = [k1, k2]"
      by (cases path rule: path_length_cases) simp_all
    then show ?thesis
    proof cases
      case 1
      then have "constructDestructureFunction tg path fallback cb st
          = Inr (done_hyper signature ?a (access1 k1 fallback) ?st1)"
        using m sig nc nm
        by (simp add: constructDestructureFunction_def construct_turbo_def lru_get_def Let_def)
      then show ?thesis using sync [of "access1 k1 fallback"] 1
        by (simp add: delivered_def turbo_function_def)
    next
      case 2
      then have "constructDestructureFunction tg path fallback cb st
          = Inr (done_hyper signature ?a (access2 k1 k2 fallback) ?st1)"
        using m sig nc nm
        by (simp add: constructDestructureFunction_def construct_turbo_def lru_get_def Let_def)
      then show ?thesis using sync [of "access2 k1 k2 fallback"] 2
        by (simp add: delivered_def turbo_function_def)
    qed
  next
    case False
    let ?st2 = "?st1\<lparr>batch := batch st @ [FunctionJob (turbo_source tg path fallback) signature ?a]\<rparr>"
    have r: "constructDestructureFunction tg path fallback cb st = Inr ?st2"
      using construct_turbo_start [OF m sig _ _ nc nm, of tg fallback cb] False by simp
    have fn: "turbo_function tg path fallback
        = QuicklyExtractValueAtPath (turbo_source tg path fallback)"
      using False by (cases path rule: path_length_cases) (simp_all add: turbo_function_def)
    have n: "map (notified ?st2) (batch st) = map (notified st) (batch st)"
      by (rule same) simp_all
    have b: "batch ?st2 = batch st @ [FunctionJob (turbo_source tg path fallback) signature ?a]"
      by simp
    have c: "calls ?st2 = calls st" by simp
    have l: "notified ?st2 (FunctionJob (turbo_source tg path fallback) signature ?a)
        = [(cb, QuicklyExtractValueAtPath (turbo_source tg path fallback))]"
      by (simp add: hyper_array_def)
    have "mset (calls (run_batch ?st2)) = mset (calls (run_batch st))
        + {#(cb, QuicklyExtractValueAtPath (turbo_source tg path fallback))#}"
      unfolding calls_run_batch b c map_append concat_append list.map n l by simp
    then show ?thesis using r fn by (simp add: delivered_def)
  qed
qed

lemma delivered_accessor_for:
  assumes "consistent st" and "select_mode path = Inr m" and "m \<noteq> Middle"
      and "m = Turbo \<longrightarrow> turbo_miss st path"
  shows "\<exists>fn. accessor_for tg path fallback = Inr fn \<and> delivered tg st path fallback cb fn"
proof (cases m)
  case Slow
  then show ?thesis using assms(2) delivered_slow [of path tg st fallback cb]
    by (simp add: accessor_for_def)
next
  case Middle
  then show ?thesis using assms(3) by simp
next
  case Turbo
  then show ?thesis using assms delivered_turbo [of st path tg fallback cb]
    by (simp add: accessor_for_def)
qed

text \<open>What running the queue leaves in the middle tier's cache, and whom it calls.\<close>

lemma fold_run_job_cache_other:
  "filter (compiles_factory signature) js = []
     \<Longrightarrow> makeDestructureCache (fold run_job js st) signature = makeDestructureCache st signature"
proof (induction js arbitrary: st)
  case Nil
  then show ?case by simp
next
  case (Cons j js)
  then show ?case by (cases j) (auto simp: done_hyper_eq done_factory_eq split: if_splits)
qed

lemma fold_run_job_cache:
  "filter (compiles_factory signature) js = [FactoryJob n body signature a]
     \<Longrightarrow> makeDestructureCache (fold run_job js st) signature = Some (Factory n body)"
proof (induction js arbitrary: st)
  case Nil
  then show ?case by simp
next
  case (Cons j js)
  show ?case
  proof (cases "compiles_factory signature j")
    case True
    then have j: "j = FactoryJob n body signature a" and rest: "filter (compiles_factory signature) js = []"
      using Cons.prems by simp_all
    show ?thesis using fold_run_job_cache_other [OF rest] j by (simp add: done_factory_eq)
  next
    case False
    then have "filter (compiles_factory signature) js = [FactoryJob n body signature a]"
      using Cons.prems by simp
    then show ?thesis using Cons.IH by simp
  qed
qed

lemma notified_in_calls:
  assumes "j \<in> set (batch st)" and "c \<in> set (notified st j)"
  shows "c \<in> set (calls (run_batch st))"
  using assms by (auto simp: calls_run_batch)


text \<open>Coalescing, for any consistent state.\<close>

lemma hyper_job_array:
  assumes "consistent st" and "FunctionJob e s a \<in> set (batch st)"
  shows "makingDestructureHyperCache st s = Some a \<and> hyperArrays st a \<noteq> None"
proof -
  have m: "makingDestructureHyperCache st s = Some a" using hyper_job_marked assms by blast
  have "hyper_ok st s" using assms(1) by (simp add: consistent_def)
  then show ?thesis using m by (simp add: hyper_ok_def)
qed

lemma factory_job_array:
  assumes "consistent st" and "FactoryJob n body s a \<in> set (batch st)"
  shows "makingDestructureCache st s = Some a \<and> factoryArrays st a \<noteq> None"
proof -
  have m: "makingDestructureCache st s = Some a" using factory_job_marked assms by blast
  have "factory_ok st s" using assms(1) by (simp add: consistent_def)
  then show ?thesis using m by (simp add: factory_ok_def)
qed

lemma coalesce_turbo_start:
  "(\<forall>path fallback cb signature.
      select_mode path = Inr Turbo \<and> js_join path ''|'' = Inr signature
      \<and> length path \<noteq> 1 \<and> length path \<noteq> 2
      \<and> map_of (makeDestructureHyperCache st) signature = None
      \<and> makingDestructureHyperCache st signature = None \<longrightarrow>
      constructDestructureFunction tg path fallback cb st
        = Inr (st\<lparr> hyperArrays := (hyperArrays st)(nextRef st \<mapsto> [cb]),
                    nextRef := Suc (nextRef st),
                    makingDestructureHyperCache :=
                      (makingDestructureHyperCache st)(signature \<mapsto> nextRef st),
                    batch := batch st @
                      [FunctionJob (turbo_source tg path fallback) signature (nextRef st)] \<rparr>))"
  by (intro allI impI, elim conjE, rule construct_turbo_start; assumption)

lemma coalesce_middle_start:
  "(\<forall>path fallback cb signature.
      select_mode path = Inr Middle \<and> middle_signature (length path) fallback = signature
      \<and> makeDestructureCache st signature = None
      \<and> makingDestructureCache st signature = None \<longrightarrow>
      constructDestructureFunction tg path fallback cb st
        = Inr (st\<lparr> factoryArrays := (factoryArrays st)(nextRef st \<mapsto> [(cb, path)]),
                    nextRef := Suc (nextRef st),
                    makingDestructureCache :=
                      (makingDestructureCache st)(signature \<mapsto> nextRef st),
                    batch := batch st @
                      [FactoryJob (length path) (factory_body (length path)) signature
                         (nextRef st)] \<rparr>))"
  using construct_middle_start by blast

lemma coalesce_turbo_pending:
  assumes c: "consistent st"
  shows "(\<forall>signature a. makingDestructureHyperCache st signature = Some a \<longrightarrow>
      (\<exists>e. filter (compiles_hyper signature) (batch st) = [FunctionJob e signature a])
      \<and> (\<exists>cbs. hyperArrays st a = Some cbs
            \<and> (\<forall>path fallback cb.
                  select_mode path = Inr Turbo \<and> js_join path ''|'' = Inr signature \<longrightarrow>
                  constructDestructureFunction tg path fallback cb st
                    = Inr (st\<lparr>hyperArrays := (hyperArrays st)(a \<mapsto> cbs @ [cb])\<rparr>))))"
proof (intro allI impI)
  fix signature a
  assume m: "makingDestructureHyperCache st signature = Some a"
  have "hyper_ok st signature" using c by (simp add: consistent_def)
  then have j: "\<exists>e. filter (compiles_hyper signature) (batch st) = [FunctionJob e signature a]"
    and "hyperArrays st a \<noteq> None"
    using m by (simp_all add: hyper_ok_def)
  then obtain cbs where arr: "hyperArrays st a = Some cbs" by blast
  have "\<forall>path fallback cb.
      select_mode path = Inr Turbo \<and> js_join path ''|'' = Inr signature \<longrightarrow>
      constructDestructureFunction tg path fallback cb st
        = Inr (st\<lparr>hyperArrays := (hyperArrays st)(a \<mapsto> cbs @ [cb])\<rparr>)"
    using construct_turbo_pending [OF c m arr] by blast
  then show "(\<exists>e. filter (compiles_hyper signature) (batch st) = [FunctionJob e signature a])
      \<and> (\<exists>cbs. hyperArrays st a = Some cbs
            \<and> (\<forall>path fallback cb.
                  select_mode path = Inr Turbo \<and> js_join path ''|'' = Inr signature \<longrightarrow>
                  constructDestructureFunction tg path fallback cb st
                    = Inr (st\<lparr>hyperArrays := (hyperArrays st)(a \<mapsto> cbs @ [cb])\<rparr>)))"
    using j arr by blast
qed

lemma coalesce_middle_pending:
  assumes c: "consistent st"
  shows "(\<forall>signature a. makingDestructureCache st signature = Some a \<longrightarrow>
      (\<exists>n body. filter (compiles_factory signature) (batch st) = [FactoryJob n body signature a]
            \<and> makeDestructureCache (run_batch st) signature = Some (Factory n body))
      \<and> (\<exists>cbs. factoryArrays st a = Some cbs
            \<and> (\<forall>path fallback cb.
                  select_mode path = Inr Middle
                  \<and> middle_signature (length path) fallback = signature \<longrightarrow>
                  constructDestructureFunction tg path fallback cb st
                    = Inr (st\<lparr>factoryArrays :=
                             (factoryArrays st)(a \<mapsto> cbs @ [(cb, path)])\<rparr>))))"
proof (intro allI impI)
  fix signature a
  assume m: "makingDestructureCache st signature = Some a"
  have "factory_ok st signature" using c by (simp add: consistent_def)
  then have "\<exists>n body. filter (compiles_factory signature) (batch st) = [FactoryJob n body signature a]"
    and "factoryArrays st a \<noteq> None"
    using m by (simp_all add: factory_ok_def)
  then obtain n body cbs where
      j: "filter (compiles_factory signature) (batch st) = [FactoryJob n body signature a]"
      and arr: "factoryArrays st a = Some cbs" by blast
  have cache: "makeDestructureCache (run_batch st) signature = Some (Factory n body)"
    unfolding run_batch_def by (rule fold_run_job_cache [OF j])
  have "\<forall>path fallback cb.
      select_mode path = Inr Middle \<and> middle_signature (length path) fallback = signature \<longrightarrow>
      constructDestructureFunction tg path fallback cb st
        = Inr (st\<lparr>factoryArrays := (factoryArrays st)(a \<mapsto> cbs @ [(cb, path)])\<rparr>)"
    using construct_middle_pending [OF c m arr] by blast
  then show "(\<exists>n body. filter (compiles_factory signature) (batch st) = [FactoryJob n body signature a]
            \<and> makeDestructureCache (run_batch st) signature = Some (Factory n body))
      \<and> (\<exists>cbs. factoryArrays st a = Some cbs
            \<and> (\<forall>path fallback cb.
                  select_mode path = Inr Middle
                  \<and> middle_signature (length path) fallback = signature \<longrightarrow>
                  constructDestructureFunction tg path fallback cb st
                    = Inr (st\<lparr>factoryArrays :=
                             (factoryArrays st)(a \<mapsto> cbs @ [(cb, path)])\<rparr>)))"
    using j arr cache by blast
qed

lemma coalesce_turbo_done:
  "(\<forall>e signature a cbs st.
      hyperArrays st a = Some cbs \<longrightarrow>
      run_job (FunctionJob e signature a) st
        = st\<lparr> makeDestructureHyperCache :=
                 lru_set (makeDestructureHyperCache st) signature (QuicklyExtractValueAtPath e),
               makingDestructureHyperCache := (makingDestructureHyperCache st)(signature := None),
               calls := calls st @ map (\<lambda>cb. (cb, QuicklyExtractValueAtPath e)) cbs \<rparr>
      \<and> map_of (makeDestructureHyperCache (run_job (FunctionJob e signature a) st)) signature
          = Some (QuicklyExtractValueAtPath e))"
  by (simp add: done_hyper_eq hyper_array_def map_of_lru_set_same)

lemma coalesce_middle_done:
  "(\<forall>n body signature a cbs st.
      factoryArrays st a = Some cbs \<longrightarrow>
      run_job (FactoryJob n body signature a) st
        = st\<lparr> makeDestructureCache := (makeDestructureCache st)(signature \<mapsto> Factory n body),
               makingDestructureCache := (makingDestructureCache st)(signature := None),
               calls := calls st @ map (\<lambda>(cb, path). (cb, FactoryClosure (Factory n body) path))
                                    cbs \<rparr>)"
  by (simp add: done_factory_eq factory_array_def)

lemma coalesce_turbo_jobs:
  assumes c: "consistent st"
  shows "(\<forall>e signature a. FunctionJob e signature a \<in> set (batch st) \<longrightarrow>
      makingDestructureHyperCache st signature = Some a \<and> hyperArrays st a \<noteq> None)"
  using hyper_job_array [OF c] by blast

lemma coalesce_middle_jobs:
  assumes c: "consistent st"
  shows "(\<forall>n body signature a. FactoryJob n body signature a \<in> set (batch st) \<longrightarrow>
      makingDestructureCache st signature = Some a \<and> factoryArrays st a \<noteq> None)"
  using factory_job_array [OF c] by blast

lemma coalesce_calls:
  assumes c: "consistent st"
  shows "calls (run_batch st)
     = calls st @ concat (map (\<lambda>j. case j of
           FunctionJob e signature a \<Rightarrow>
             map (\<lambda>cb. (cb, QuicklyExtractValueAtPath e)) (the (hyperArrays st a))
         | FactoryJob n body signature a \<Rightarrow>
             map (\<lambda>(cb, path). (cb, FactoryClosure (Factory n body) path))
               (the (factoryArrays st a))) (batch st))"
proof -
  have "map (notified st) (batch st) = map (\<lambda>j. case j of
           FunctionJob e signature a \<Rightarrow>
             map (\<lambda>cb. (cb, QuicklyExtractValueAtPath e)) (the (hyperArrays st a))
         | FactoryJob n body signature a \<Rightarrow>
             map (\<lambda>(cb, path). (cb, FactoryClosure (Factory n body) path))
               (the (factoryArrays st a))) (batch st)"
  proof (intro map_cong refl)
    fix j assume j: "j \<in> set (batch st)"
    show "notified st j = (case j of
           FunctionJob e signature a \<Rightarrow>
             map (\<lambda>cb. (cb, QuicklyExtractValueAtPath e)) (the (hyperArrays st a))
         | FactoryJob n body signature a \<Rightarrow>
             map (\<lambda>(cb, path). (cb, FactoryClosure (Factory n body) path))
               (the (factoryArrays st a)))"
    proof (cases j)
      case (FactoryJob n body s a)
      then have "factoryArrays st a \<noteq> None" using factory_job_array [OF c] j by blast
      then show ?thesis using FactoryJob by (auto simp: factory_array_def)
    next
      case (FunctionJob e s a)
      then have "hyperArrays st a \<noteq> None" using hyper_job_array [OF c] j by blast
      then show ?thesis using FunctionJob by (auto simp: hyper_array_def)
    qed
  qed
  then show ?thesis unfolding calls_run_batch by (rule arg_cong)
qed

lemma coalesce_cleared:
  assumes c: "consistent st"
  shows "(\<forall>signature. makingDestructureHyperCache (run_batch st) signature = None
                 \<and> makingDestructureCache (run_batch st) signature = None)"
  using run_batch_making [OF c] by simp

lemma run_snoc: "run tg (evs @ [ev]) = apply_event tg ev (run tg evs)"
  by (simp add: run_def)

lemma run_Nil: "run tg [] = initial"
  by (simp add: run_def)

text \<open>
  C7. In every state the module can reach, in the turbo tier (paths compiled through the
  queue, i.e. of a length other than 1 and 2) and in the middle tier alike:

  \<^item> a request whose signature is neither cached nor in progress starts one compilation: it
    allocates a new callback array holding the request, marks the signature as in progress
    with that array, and queues one job for the signature;
  \<^item> for every signature marked as in progress, exactly one job of the queue compiles it, and
    it holds the array the mark refers to; a further request with that signature only
    appends its callback to that array (kept after the callbacks already there), and
    changes nothing else, so it queues no second compilation;
  \<^item> when a job completes, in any state, the compiled function is cached under the
    signature, the mark is removed, and every callback of the job's array is called, with
    the compiled function in the turbo tier and with what the compiled factory returns for
    the caller's own path in the middle tier;
  \<^item> every job of the queue belongs to a signature in progress and its array exists; running
    the queue makes exactly the calls above for every job, in order, leaves in the middle
    tier's cache the factory of each signature that was in progress, and leaves no job
    queued and no signature marked.
\<close>

theorem C7_coalesced_compilation:
  "(\<forall>path fallback cb signature.
      select_mode path = Inr Turbo \<and> js_join path ''|'' = Inr signature
      \<and> length path \<noteq> 1 \<and> length path \<noteq> 2
      \<and> map_of (makeDestructureHyperCache (run tg evs)) signature = None
      \<and> makingDestructureHyperCache (run tg evs) signature = None \<longrightarrow>
      constructDestructureFunction tg path fallback cb (run tg evs)
        = Inr ((run tg evs)\<lparr> hyperArrays := (hyperArrays (run tg evs))(nextRef (run tg evs) \<mapsto> [cb]),
                    nextRef := Suc (nextRef (run tg evs)),
                    makingDestructureHyperCache :=
                      (makingDestructureHyperCache (run tg evs))(signature \<mapsto> nextRef (run tg evs)),
                    batch := batch (run tg evs) @
                      [FunctionJob (turbo_source tg path fallback) signature (nextRef (run tg evs))] \<rparr>))
   \<and> (\<forall>path fallback cb signature.
      select_mode path = Inr Middle \<and> middle_signature (length path) fallback = signature
      \<and> makeDestructureCache (run tg evs) signature = None
      \<and> makingDestructureCache (run tg evs) signature = None \<longrightarrow>
      constructDestructureFunction tg path fallback cb (run tg evs)
        = Inr ((run tg evs)\<lparr> factoryArrays := (factoryArrays (run tg evs))(nextRef (run tg evs) \<mapsto> [(cb, path)]),
                    nextRef := Suc (nextRef (run tg evs)),
                    makingDestructureCache :=
                      (makingDestructureCache (run tg evs))(signature \<mapsto> nextRef (run tg evs)),
                    batch := batch (run tg evs) @
                      [FactoryJob (length path) (factory_body (length path)) signature
                         (nextRef (run tg evs))] \<rparr>))
   \<and> (\<forall>signature a. makingDestructureHyperCache (run tg evs) signature = Some a \<longrightarrow>
      (\<exists>e. filter (compiles_hyper signature) (batch (run tg evs)) = [FunctionJob e signature a])
      \<and> (\<exists>cbs. hyperArrays (run tg evs) a = Some cbs
            \<and> (\<forall>path fallback cb.
                  select_mode path = Inr Turbo \<and> js_join path ''|'' = Inr signature \<longrightarrow>
                  constructDestructureFunction tg path fallback cb (run tg evs)
                    = Inr ((run tg evs)\<lparr>hyperArrays := (hyperArrays (run tg evs))(a \<mapsto> cbs @ [cb])\<rparr>))))
   \<and> (\<forall>signature a. makingDestructureCache (run tg evs) signature = Some a \<longrightarrow>
      (\<exists>n body. filter (compiles_factory signature) (batch (run tg evs)) = [FactoryJob n body signature a]
            \<and> makeDestructureCache (run_batch (run tg evs)) signature = Some (Factory n body))
      \<and> (\<exists>cbs. factoryArrays (run tg evs) a = Some cbs
            \<and> (\<forall>path fallback cb.
                  select_mode path = Inr Middle
                  \<and> middle_signature (length path) fallback = signature \<longrightarrow>
                  constructDestructureFunction tg path fallback cb (run tg evs)
                    = Inr ((run tg evs)\<lparr>factoryArrays :=
                             (factoryArrays (run tg evs))(a \<mapsto> cbs @ [(cb, path)])\<rparr>))))
   \<and> (\<forall>e signature a cbs st.
      hyperArrays st a = Some cbs \<longrightarrow>
      run_job (FunctionJob e signature a) st
        = st\<lparr> makeDestructureHyperCache :=
                 lru_set (makeDestructureHyperCache st) signature (QuicklyExtractValueAtPath e),
               makingDestructureHyperCache := (makingDestructureHyperCache st)(signature := None),
               calls := calls st @ map (\<lambda>cb. (cb, QuicklyExtractValueAtPath e)) cbs \<rparr>
      \<and> map_of (makeDestructureHyperCache (run_job (FunctionJob e signature a) st)) signature
          = Some (QuicklyExtractValueAtPath e))
   \<and> (\<forall>n body signature a cbs st.
      factoryArrays st a = Some cbs \<longrightarrow>
      run_job (FactoryJob n body signature a) st
        = st\<lparr> makeDestructureCache := (makeDestructureCache st)(signature \<mapsto> Factory n body),
               makingDestructureCache := (makingDestructureCache st)(signature := None),
               calls := calls st @ map (\<lambda>(cb, path). (cb, FactoryClosure (Factory n body) path))
                                    cbs \<rparr>)
   \<and> (\<forall>e signature a. FunctionJob e signature a \<in> set (batch (run tg evs)) \<longrightarrow>
      makingDestructureHyperCache (run tg evs) signature = Some a \<and> hyperArrays (run tg evs) a \<noteq> None)
   \<and> (\<forall>n body signature a. FactoryJob n body signature a \<in> set (batch (run tg evs)) \<longrightarrow>
      makingDestructureCache (run tg evs) signature = Some a \<and> factoryArrays (run tg evs) a \<noteq> None)
   \<and> calls (run_batch (run tg evs))
     = calls (run tg evs) @ concat (map (\<lambda>j. case j of
           FunctionJob e signature a \<Rightarrow>
             map (\<lambda>cb. (cb, QuicklyExtractValueAtPath e)) (the (hyperArrays (run tg evs) a))
         | FactoryJob n body signature a \<Rightarrow>
             map (\<lambda>(cb, path). (cb, FactoryClosure (Factory n body) path))
               (the (factoryArrays (run tg evs) a))) (batch (run tg evs)))
   \<and> batch (run_batch (run tg evs)) = []
   \<and> (\<forall>signature. makingDestructureHyperCache (run_batch (run tg evs)) signature = None
                 \<and> makingDestructureCache (run_batch (run tg evs)) signature = None)"
proof -
  have c: "consistent (run tg evs)" by (rule consistent_run)
  show ?thesis
    by (intro conjI)
      (rule coalesce_turbo_start coalesce_middle_start coalesce_turbo_pending [OF c]
         coalesce_middle_pending [OF c] coalesce_turbo_done coalesce_middle_done
         coalesce_turbo_jobs [OF c] coalesce_middle_jobs [OF c] coalesce_calls [OF c]
         batch_run_batch coalesce_cleared [OF c])+
qed


theorem C7_coalesced_compilation_witness:
  "batch (run PlainAccess [Request [Str ''a'', Str ''b'', Str ''c''] Undefined (Extern 0)])
       = [FunctionJob (turbo_source PlainAccess [Str ''a'', Str ''b'', Str ''c''] Undefined) ''a|b|c'' 0]
   \<and> hyperArrays (run PlainAccess [Request [Str ''a'', Str ''b'', Str ''c''] Undefined (Extern 0),
                        Request [Str ''a'', Str ''b'', Str ''c''] Undefined (Extern 1)]) 0
       = Some [Extern 0, Extern 1]
   \<and> batch (run PlainAccess [Request [Str ''a'', Str ''b'', Str ''c''] Undefined (Extern 0),
                 Request [Str ''a'', Str ''b'', Str ''c''] Undefined (Extern 1)])
       = [FunctionJob (turbo_source PlainAccess [Str ''a'', Str ''b'', Str ''c''] Undefined) ''a|b|c'' 0]
   \<and> calls (run PlainAccess [Request [Str ''a'', Str ''b'', Str ''c''] Undefined (Extern 0),
                 Request [Str ''a'', Str ''b'', Str ''c''] Undefined (Extern 1), RunBatch])
       = [(Extern 0, QuicklyExtractValueAtPath
                       (turbo_source PlainAccess [Str ''a'', Str ''b'', Str ''c''] Undefined)),
          (Extern 1, QuicklyExtractValueAtPath
                       (turbo_source PlainAccess [Str ''a'', Str ''b'', Str ''c''] Undefined))]
   \<and> batch (run PlainAccess [Request [Sym 0, Str ''a''] Undefined (Extern 0)])
       = [FactoryJob 2 (Get (Get Value (Param 0)) (Param 1)) ''n2'' 0]
   \<and> factoryArrays (run PlainAccess [Request [Sym 0, Str ''a''] Undefined (Extern 0),
                        Request [Str ''b'', Sym 2] Undefined (Extern 1)]) 0
       = Some [(Extern 0, [Sym 0, Str ''a'']), (Extern 1, [Str ''b'', Sym 2])]
   \<and> batch (run PlainAccess [Request [Sym 0, Str ''a''] Undefined (Extern 0),
                 Request [Str ''b'', Sym 2] Undefined (Extern 1)])
       = [FactoryJob 2 (Get (Get Value (Param 0)) (Param 1)) ''n2'' 0]
   \<and> calls (run PlainAccess [Request [Sym 0, Str ''a''] Undefined (Extern 0),
                 Request [Str ''b'', Sym 2] Undefined (Extern 1), RunBatch])
       = [(Extern 0, FactoryClosure (Factory 2 (Get (Get Value (Param 0)) (Param 1)))
                       [Sym 0, Str ''a'']),
          (Extern 1, FactoryClosure (Factory 2 (Get (Get Value (Param 0)) (Param 1)))
                       [Str ''b'', Sym 2])]
   \<and> makeDestructureCache (run PlainAccess [Request [Sym 0, Str ''a''] Undefined (Extern 0),
                 Request [Str ''b'', Sym 2] Undefined (Extern 1), RunBatch]) ''n2''
       = Some (Factory 2 (Get (Get Value (Param 0)) (Param 1)))"
proof -
  let ?p = "[Str ''a'', Str ''b'', Str ''c'']"
  let ?src = "turbo_source PlainAccess ?p Undefined"
  let ?R0 = "Request ?p Undefined (Extern 0)" and ?R1 = "Request ?p Undefined (Extern 1)"
  let ?s0 = "run PlainAccess []" and ?s1 = "run PlainAccess [?R0]"
  let ?s2 = "run PlainAccess [?R0, ?R1]"
  have m: "select_mode ?p = Inr Turbo" by (simp add: select_mode_def initial_mode_def)
  have j: "js_join ?p ''|'' = Inr ''a|b|c''" by simp
  have "constructDestructureFunction PlainAccess ?p Undefined (Extern 0) ?s0
      = Inr (?s0\<lparr> hyperArrays := (hyperArrays ?s0)(nextRef ?s0 \<mapsto> [Extern 0]),
                   nextRef := Suc (nextRef ?s0),
                   makingDestructureHyperCache :=
                     (makingDestructureHyperCache ?s0)(''a|b|c'' \<mapsto> nextRef ?s0),
                   batch := batch ?s0 @ [FunctionJob ?src ''a|b|c'' (nextRef ?s0)] \<rparr>)"
    by (rule C7_coalesced_compilation [of PlainAccess "[]", THEN conjunct1, rule_format])
      (simp add: m j run_Nil initial_def)
  then have r1: "?s1 = initial\<lparr> hyperArrays := [0 \<mapsto> [Extern 0]], nextRef := Suc 0,
        makingDestructureHyperCache := [''a|b|c'' \<mapsto> 0], batch := [FunctionJob ?src ''a|b|c'' 0] \<rparr>"
    using run_snoc [of PlainAccess "[]" ?R0] by (simp add: run_Nil initial_def)
  have mk: "makingDestructureHyperCache ?s1 ''a|b|c'' = Some 0" by (simp add: r1)
  have arr: "hyperArrays ?s1 0 = Some [Extern 0]" by (simp add: r1)
  note pend = C7_coalesced_compilation [of PlainAccess "[?R0]", THEN conjunct2, THEN conjunct2,
      THEN conjunct1, rule_format, OF mk, THEN conjunct2]
  then obtain cbs where cbs: "hyperArrays ?s1 0 = Some cbs"
    and app: "\<forall>path fallback cb. select_mode path = Inr Turbo \<and> js_join path ''|'' = Inr ''a|b|c'' \<longrightarrow>
        constructDestructureFunction PlainAccess path fallback cb ?s1
          = Inr (?s1\<lparr>hyperArrays := (hyperArrays ?s1)(0 \<mapsto> cbs @ [cb])\<rparr>)"
    by blast
  have "cbs = [Extern 0]" using cbs arr by simp
  then have "constructDestructureFunction PlainAccess ?p Undefined (Extern 1) ?s1
      = Inr (?s1\<lparr>hyperArrays := (hyperArrays ?s1)(0 \<mapsto> [Extern 0, Extern 1])\<rparr>)"
    using app m j by simp
  then have r2: "?s2 = ?s1\<lparr>hyperArrays := (hyperArrays ?s1)(0 \<mapsto> [Extern 0, Extern 1])\<rparr>"
    using run_snoc [of PlainAccess "[?R0]" ?R1] by simp
  have r3: "run PlainAccess [?R0, ?R1, RunBatch] = run_batch ?s2"
    using run_snoc [of PlainAccess "[?R0, ?R1]" RunBatch] by simp
  note cl = C7_coalesced_compilation [of PlainAccess "[?R0, ?R1]", THEN conjunct2, THEN conjunct2,
      THEN conjunct2, THEN conjunct2, THEN conjunct2, THEN conjunct2, THEN conjunct2,
      THEN conjunct2, THEN conjunct1]
  have turbo_calls: "calls (run PlainAccess [?R0, ?R1, RunBatch])
      = [(Extern 0, QuicklyExtractValueAtPath ?src), (Extern 1, QuicklyExtractValueAtPath ?src)]"
    unfolding r3 cl unfolding r2 by (simp add: r1 initial_def)
  let ?q1 = "[Sym 0, Str ''a'']" and ?q2 = "[Str ''b'', Sym 2]"
  let ?M0 = "Request ?q1 Undefined (Extern 0)" and ?M1 = "Request ?q2 Undefined (Extern 1)"
  let ?t1 = "run PlainAccess [?M0]" and ?t2 = "run PlainAccess [?M0, ?M1]"
  let ?body = "Get (Get Value (Param 0)) (Param 1)"
  have mm: "select_mode ?q1 = Inr Middle" "select_mode ?q2 = Inr Middle"
    by (simp_all add: select_mode_def initial_mode_def)
  have n: "length ?q1 = 2" "length ?q2 = 2" by simp_all
  have s2: "middle_signature 2 Undefined = ''n2''"
    by (simp add: middle_signature_def show_nat.simps)
  have s: "middle_signature (length ?q1) Undefined = ''n2''"
    "middle_signature (length ?q2) Undefined = ''n2''"
    unfolding n by (rule s2)+
  have fb2: "factory_body 2 = ?body"
    by (simp add: factory_body_def join_onto_def upt_rec)
  have fb: "factory_body (length ?q1) = ?body"
    unfolding n by (rule fb2)
  have "constructDestructureFunction PlainAccess ?q1 Undefined (Extern 0) ?s0
      = Inr (?s0\<lparr> factoryArrays := (factoryArrays ?s0)(nextRef ?s0 \<mapsto> [(Extern 0, ?q1)]),
                   nextRef := Suc (nextRef ?s0),
                   makingDestructureCache := (makingDestructureCache ?s0)(''n2'' \<mapsto> nextRef ?s0),
                   batch := batch ?s0 @
                     [FactoryJob (length ?q1) (factory_body (length ?q1)) ''n2'' (nextRef ?s0)] \<rparr>)"
    by (rule C7_coalesced_compilation [of PlainAccess "[]", THEN conjunct2, THEN conjunct1,
          rule_format])
      (intro conjI, rule mm, rule s, simp_all add: run_Nil initial_def)
  then have u1: "?t1 = initial\<lparr> factoryArrays := [0 \<mapsto> [(Extern 0, ?q1)]], nextRef := Suc 0,
        makingDestructureCache := [''n2'' \<mapsto> 0], batch := [FactoryJob 2 ?body ''n2'' 0] \<rparr>"
    using run_snoc [of PlainAccess "[]" ?M0] unfolding fb by (simp add: run_Nil initial_def)
  have mk': "makingDestructureCache ?t1 ''n2'' = Some 0" by (simp add: u1)
  have arr': "factoryArrays ?t1 0 = Some [(Extern 0, ?q1)]" by (simp add: u1)
  note pend' = C7_coalesced_compilation [of PlainAccess "[?M0]", THEN conjunct2, THEN conjunct2,
      THEN conjunct2, THEN conjunct1, rule_format, OF mk']
  from pend' [THEN conjunct2] obtain cbs' where cbs': "factoryArrays ?t1 0 = Some cbs'"
    and app': "\<forall>path fallback cb. select_mode path = Inr Middle
          \<and> middle_signature (length path) fallback = ''n2'' \<longrightarrow>
        constructDestructureFunction PlainAccess path fallback cb ?t1
          = Inr (?t1\<lparr>factoryArrays := (factoryArrays ?t1)(0 \<mapsto> cbs' @ [(cb, path)])\<rparr>)"
    by blast
  from pend' [THEN conjunct1] obtain n body' where
      job: "filter (compiles_factory ''n2'') (batch ?t1) = [FactoryJob n body' ''n2'' 0]"
      and cache: "makeDestructureCache (run_batch ?t1) ''n2'' = Some (Factory n body')"
    by blast
  have "cbs' = [(Extern 0, ?q1)]" using cbs' arr' by simp
  then have "constructDestructureFunction PlainAccess ?q2 Undefined (Extern 1) ?t1
      = Inr (?t1\<lparr>factoryArrays := (factoryArrays ?t1)(0 \<mapsto> [(Extern 0, ?q1), (Extern 1, ?q2)])\<rparr>)"
    using app' mm(2) s(2) by simp
  then have u2: "?t2 = ?t1\<lparr>factoryArrays := (factoryArrays ?t1)(0 \<mapsto> [(Extern 0, ?q1), (Extern 1, ?q2)])\<rparr>"
    using run_snoc [of PlainAccess "[?M0]" ?M1] by simp
  have u3: "run PlainAccess [?M0, ?M1, RunBatch] = run_batch ?t2"
    using run_snoc [of PlainAccess "[?M0, ?M1]" RunBatch] by simp
  note cl' = C7_coalesced_compilation [of PlainAccess "[?M0, ?M1]", THEN conjunct2, THEN conjunct2,
      THEN conjunct2, THEN conjunct2, THEN conjunct2, THEN conjunct2, THEN conjunct2,
      THEN conjunct2, THEN conjunct1]
  have middle_calls: "calls (run PlainAccess [?M0, ?M1, RunBatch])
      = [(Extern 0, FactoryClosure (Factory 2 ?body) ?q1),
         (Extern 1, FactoryClosure (Factory 2 ?body) ?q2)]"
    unfolding u3 cl' unfolding u2 by (simp add: u1 initial_def)
  have mk2: "makingDestructureCache ?t2 ''n2'' = Some 0" unfolding u2 by (simp add: u1)
  note pend2 = C7_coalesced_compilation [of PlainAccess "[?M0, ?M1]", THEN conjunct2, THEN conjunct2,
      THEN conjunct2, THEN conjunct1, rule_format, OF mk2, THEN conjunct1]
  then obtain n2 body2 where
      job2: "filter (compiles_factory ''n2'') (batch ?t2) = [FactoryJob n2 body2 ''n2'' 0]"
      and cache2: "makeDestructureCache (run_batch ?t2) ''n2'' = Some (Factory n2 body2)"
    by blast
  have bt2: "batch ?t2 = [FactoryJob 2 ?body ''n2'' 0]" unfolding u2 by (simp add: u1)
  have "n2 = 2 \<and> body2 = ?body" using job2 unfolding bt2 by simp
  then have middle_cache: "makeDestructureCache (run PlainAccess [?M0, ?M1, RunBatch]) ''n2''
      = Some (Factory 2 ?body)"
    using cache2 u3 by simp
  have bs1: "batch ?s1 = [FunctionJob ?src ''a|b|c'' 0]" by (simp add: r1)
  have hs2: "hyperArrays ?s2 0 = Some [Extern 0, Extern 1]" unfolding r2 by simp
  have bs2: "batch ?s2 = [FunctionJob ?src ''a|b|c'' 0]" unfolding r2 by (simp add: r1)
  have bt1: "batch ?t1 = [FactoryJob 2 ?body ''n2'' 0]" by (simp add: u1)
  have ft2: "factoryArrays ?t2 0 = Some [(Extern 0, ?q1), (Extern 1, ?q2)]" unfolding u2 by simp
  show ?thesis
    by (intro conjI)
      (rule bs1 hs2 bs2 turbo_calls bt1 ft2 bt2 middle_calls middle_cache)+
qed


section \<open>The slow walker and the turbo tier\<close>

lemma turbo_function_returns_iff:
  assumes "\<forall>k\<in>set path. to_key k \<noteq> None"
  shows "(\<exists>r. call (turbo_function tg path fallback) v = Inr r)
     \<longleftrightarrow> (length path \<le> 2 \<or> tg = OptionalAccess \<or> (\<exists>x. strict_chain path v = Inr x))"
proof
  assume "\<exists>r. call (turbo_function tg path fallback) v = Inr r"
  then obtain r where r: "call (turbo_function tg path fallback) v = Inr r" ..
  show "length path \<le> 2 \<or> tg = OptionalAccess \<or> (\<exists>x. strict_chain path v = Inr x)"
  proof (cases "length path \<le> 2 \<or> tg = OptionalAccess")
    case True
    then show ?thesis by blast
  next
    case False
    then have tg: "tg = PlainAccess" and l: "2 < length path" by (cases tg; auto)+
    have "call (turbo_function PlainAccess path fallback) v
      = call (QuicklyExtractValueAtPath (turbo_source PlainAccess path fallback)) v"
      using l by (cases path rule: path_length_cases) (simp_all add: turbo_function_def)
    then have "\<exists>x. strict_chain path v = Inr x"
      using r tg unfolding call_turbo_source_plain by (cases "strict_chain path v") simp_all
    then show ?thesis by blast
  qed
next
  assume "length path \<le> 2 \<or> tg = OptionalAccess \<or> (\<exists>x. strict_chain path v = Inr x)"
  then have "length path \<le> 2 \<or> tg = OptionalAccess \<or> \<not> isl (strict_chain path v)" by auto
  then have "\<not> isl (call (turbo_function tg path fallback) v)"
    using assms by (rule call_turbo_function_returns)
  then show "\<exists>r. call (turbo_function tg path fallback) v = Inr r"
    by (cases "call (turbo_function tg path fallback) v") simp_all
qed

lemma slow_walker_returns:
  assumes "\<forall>k\<in>set path. to_key k \<noteq> None"
  shows "\<exists>w. call (SlowlyExtractValueAtPath path fallback) v = Inr w"
  using slow_vs_turbo [OF assms, of fallback v] by blast

lemma slow_agrees_with_turbo:
  assumes "\<forall>k\<in>set path. to_key k \<noteq> None"
      and "call (turbo_function tg path fallback) v = Inr r"
  shows "call (SlowlyExtractValueAtPath path fallback) v
           = Inr (if r = Null \<and> fallback = Undefined then Undefined else r)"
proof -
  have "call (turbo_function OptionalAccess path fallback) v = Inr r"
    using assms(2) by (rule call_turbo_function_any)
  then show ?thesis using slow_vs_turbo [OF assms(1), of fallback v] by auto
qed

text \<open>
  C1 (as the claim states it, at the path \<^verbatim>\<open>["a"]\<close>, no fallback, and the value
  \<^verbatim>\<open>{a: null}\<close>). The path is compiled in turbo mode, to the closure of \<^verbatim>\<open>access1\<close>
  without fallback, which returns \<^verbatim>\<open>value?.[key1]\<close>, here \<^verbatim>\<open>null\<close>; the slow walker
  returns \<^verbatim>\<open>current ?? fallback\<close>, here \<^verbatim>\<open>undefined\<close>.
\<close>

theorem C1_null_property_counterexample:
  "select_mode [Str ''a''] = Inr Turbo
   \<and> map_sum id calls (constructDestructureFunction PlainAccess [Str ''a''] Undefined (Extern 0) initial)
       = Inr [(Extern 0, QuicklyAccessKey1 (Str ''a''))]
   \<and> call (QuicklyAccessKey1 (Str ''a'')) (Obj 0 [(KStr ''a'', Null)]) = Inr Null
   \<and> call (SlowlyExtractValueAtPath [Str ''a''] Undefined) (Obj 0 [(KStr ''a'', Null)]) = Inr Undefined"
  by (simp add: select_mode_def initial_mode_def constructDestructureFunction_def
      construct_turbo_def lru_get_def initial_def done_hyper_def hyper_array_def invoke_def
      access1_def opt_get_def get_prop_def coalesce_def)

text \<open>
  C1 (amended). Let a path be compiled in turbo mode, and let the module be in any state it
  can reach in which nothing is cached or in progress under the path's signature. Then, for
  every fallback, either kind of access the template library writes, and every value:

  \<^item> the request is answered with the turbo tier's function for the path and the fallback:
    the closure of \<^verbatim>\<open>access1\<close> or \<^verbatim>\<open>access2\<close> for one or two items, the function compiled
    from the generated source for any other length;
  \<^item> the slow walker over the same path and fallback returns;
  \<^item> whenever the turbo function returns, the slow walker returns the same result, with one
    exception: when there is no fallback and the turbo function returns \<^verbatim>\<open>null\<close>, the
    slow walker returns \<^verbatim>\<open>undefined\<close>;
  \<^item> the turbo function returns exactly when the path has at most two items, or the library
    writes optional accesses, or the chain of plain accesses \<^verbatim>\<open>value[k1]...[kn]\<close> does
    not throw on the value, that is, no value on the way is \<^verbatim>\<open>null\<close> or \<^verbatim>\<open>undefined\<close>.
\<close>

theorem C1_slow_walk_and_turbo:
  assumes "select_mode path = Inr Turbo" and "turbo_miss (run tg evs) path"
  shows "delivered tg (run tg evs) path fallback cb (turbo_function tg path fallback)
     \<and> (\<exists>w. call (SlowlyExtractValueAtPath path fallback) v = Inr w)
     \<and> (\<forall>r. call (turbo_function tg path fallback) v = Inr r \<longrightarrow>
           call (SlowlyExtractValueAtPath path fallback) v
             = Inr (if r = Null \<and> fallback = Undefined then Undefined else r))
     \<and> ((\<exists>r. call (turbo_function tg path fallback) v = Inr r)
          \<longleftrightarrow> (length path \<le> 2 \<or> tg = OptionalAccess \<or> (\<exists>x. strict_chain path v = Inr x)))"
proof -
  have keyed: "\<forall>k\<in>set path. to_key k \<noteq> None" using assms(1) by (rule keyed_items)
  have d: "delivered tg (run tg evs) path fallback cb (turbo_function tg path fallback)"
    using consistent_run assms by (rule delivered_turbo)
  show ?thesis
    using d slow_walker_returns [OF keyed] slow_agrees_with_turbo [OF keyed]
      turbo_function_returns_iff [OF keyed]
    by blast
qed

theorem C1_slow_walk_and_turbo_witness:
  "select_mode [Str ''a'', Str ''b'', Num (Fin 0)] = Inr Turbo
   \<and> turbo_miss (run PlainAccess [Request [Str ''x'', Str ''y'', Str ''z''] Undefined (Extern 1),
                                   RunBatch])
        [Str ''a'', Str ''b'', Num (Fin 0)]
   \<and> delivered PlainAccess
        (run PlainAccess [Request [Str ''x'', Str ''y'', Str ''z''] Undefined (Extern 1), RunBatch])
        [Str ''a'', Str ''b'', Num (Fin 0)] (Num (Fin 7)) (Extern 0)
        (turbo_function PlainAccess [Str ''a'', Str ''b'', Num (Fin 0)] (Num (Fin 7)))
   \<and> call (turbo_function PlainAccess [Str ''a'', Str ''b'', Num (Fin 0)] (Num (Fin 7)))
        (Obj 0 [(KStr ''a'', Obj 1 [(KStr ''b'', Arr 2 [Num (Fin 5)])])]) = Inr (Num (Fin 5))
   \<and> call (SlowlyExtractValueAtPath [Str ''a'', Str ''b'', Num (Fin 0)] (Num (Fin 7)))
        (Obj 0 [(KStr ''a'', Obj 1 [(KStr ''b'', Arr 2 [Num (Fin 5)])])]) = Inr (Num (Fin 5))"
proof -
  let ?p = "[Str ''a'', Str ''b'', Num (Fin 0)]"
  let ?evs = "[Request [Str ''x'', Str ''y'', Str ''z''] Undefined (Extern 1), RunBatch]"
  let ?v = "Obj 0 [(KStr ''a'', Obj 1 [(KStr ''b'', Arr 2 [Num (Fin 5)])])]"
  have h: "select_mode ?p = Inr Turbo"
    by (simp add: select_mode_def initial_mode_def)
  have q: "select_mode [Str ''x'', Str ''y'', Str ''z''] = Inr Turbo"
    by (simp add: select_mode_def initial_mode_def)
  have j: "js_join ?p ''|'' = Inr ''a|b|0''"
    by (simp add: show_int_def show_nat.simps)
  have miss: "turbo_miss (run PlainAccess ?evs) ?p"
    unfolding turbo_miss_def j
    by (simp add: run_def constructDestructureFunction_def q construct_turbo_def lru_get_def
        initial_def run_batch_def done_hyper_eq lru_set_def maxLength_def)
  have t: "call (turbo_function PlainAccess ?p (Num (Fin 7))) ?v = Inr (Num (Fin 5))"
    by (simp add: turbo_function_def turbo_source_def join_onto_def get_prop_def
        indexed_def show_int_def show_nat.simps coalesce_def)
  note th = C1_slow_walk_and_turbo [OF h miss, of "Num (Fin 7)" "Extern 0" ?v]
  have s: "call (SlowlyExtractValueAtPath ?p (Num (Fin 7))) ?v = Inr (Num (Fin 5))"
    using th [THEN conjunct2, THEN conjunct2, THEN conjunct1, rule_format, OF t] by simp
  show ?thesis
    by (intro conjI) (rule h miss th [THEN conjunct1] t s)+
qed

text \<open>
  If the library writes plain accesses, the function compiled for a path of three items
  throws where the slow walker returns: the path \<^verbatim>\<open>["a","b","c"]\<close> on \<^verbatim>\<open>{}\<close>.
\<close>

lemma turbo_plain_access_throws:
  "select_mode [Str ''a'', Str ''b'', Str ''c''] = Inr Turbo
   \<and> call (turbo_function PlainAccess [Str ''a'', Str ''b'', Str ''c''] Undefined) (Obj 0 [])
       = Inl TypeError
   \<and> call (turbo_function OptionalAccess [Str ''a'', Str ''b'', Str ''c''] Undefined) (Obj 0 [])
       = Inr Undefined
   \<and> call (SlowlyExtractValueAtPath [Str ''a'', Str ''b'', Str ''c''] Undefined) (Obj 0 [])
       = Inr Undefined"
  by (simp add: select_mode_def initial_mode_def turbo_function_def turbo_source_def
      join_onto_def get_prop_def coalesce_def)


section \<open>Access fusion\<close>

lemma execute_simps:
  "execute tg p f u = (case select_mode p of Inl err \<Rightarrow> Inl err
      | Inr Slow \<Rightarrow> call (SlowlyExtractValueAtPath p f) u
      | Inr Middle \<Rightarrow> call (FactoryClosure (Factory (length p) (factory_body (length p))) p) u
      | Inr Turbo \<Rightarrow> call (turbo_function tg p f) u)"
  by (simp add: execute_def accessor_for_def split: sum.splits mode.splits)

text \<open>
  The pair and the fused accessor, when no middle-tier function is among the three: first
  when the library writes optional accesses, then for either kind of access.
\<close>

lemma fusion_semantics:
  assumes m1: "select_mode p1 = Inr m1" and m2: "select_mode p2 = Inr m2"
      and m: "select_mode (p1 @ p2) = Inr m"
      and nm: "m1 \<noteq> Middle" "m2 \<noteq> Middle" "m \<noteq> Middle"
  shows "\<exists>x r. execute OptionalAccess p1 Undefined v = Inr x \<and> execute OptionalAccess p2 fallback x = Inr r
           \<and> execute OptionalAccess (p1 @ p2) fallback v
               = Inr (if r = Null \<and> fallback = Undefined \<and> m = Slow then Undefined else r)"
proof -
  have k1: "\<forall>k\<in>set p1. to_key k \<noteq> None" and k2: "\<forall>k\<in>set p2. to_key k \<noteq> None"
    using keyed_items m1 m2 by blast+
  obtain w1 c1 where wc1: "slow_loop p1 v = Inr w1" "opt_chain p1 v = Inr c1"
      "nullish w1 \<longleftrightarrow> nullish c1" "\<not> nullish c1 \<longrightarrow> w1 = c1"
    using slow_loop_opt_chain [OF k1] by blast
  have sl2: "\<And>u. \<exists>w c. slow_loop p2 u = Inr w \<and> opt_chain p2 u = Inr c
      \<and> (nullish w \<longleftrightarrow> nullish c) \<and> (\<not> nullish c \<longrightarrow> w = c)"
    using slow_loop_opt_chain [OF k2] by blast
  note ex = execute_simps [of OptionalAccess]
  consider (TTT) "m1 = Turbo" "m2 = Turbo" "m = Turbo"
    | (S1) "m1 = Slow" "m = Slow" | (S2) "m1 = Turbo" "m2 = Slow" "m = Slow"
    | (bad) "m1 = Turbo" "m2 = Turbo" "m = Slow"
    | (bad2) "m = Turbo" "m1 = Slow \<or> m2 = Slow"
    using nm by (cases m1; cases m2; cases m) auto
  then show ?thesis
  proof cases
    case TTT
    obtain w c where "opt_chain p2 c1 = Inr c" using sl2 [of c1] by blast
    then show ?thesis using TTT m1 m2 m wc1
      by (simp add: ex call_turbo_function opt_chain_append)
  next
    case S1
    show ?thesis
    proof (cases "nullish w1")
      case True
      then show ?thesis using S1 m1 m2 m wc1 nm
        by (cases m2) (auto simp: ex call_turbo_function slow_loop_append slow_loop_nullish coalesce_def)
    next
      case False
      then have x: "execute OptionalAccess p1 Undefined v = Inr w1"
        using S1 m1 wc1 by (simp add: ex coalesce_def)
      have f: "execute OptionalAccess (p1 @ p2) fallback v = call (SlowlyExtractValueAtPath p2 fallback) w1"
        using S1 m wc1 by (simp add: ex slow_loop_append)
      show ?thesis
      proof (cases m2)
        case Slow
        obtain w c where "slow_loop p2 w1 = Inr w" using sl2 [of w1] by blast
        then show ?thesis using Slow x f m2 S1
          by (auto simp: ex coalesce_def)
      next
        case Middle
        then show ?thesis using nm by simp
      next
        case Turbo
        then show ?thesis using x f m2 S1 slow_vs_turbo [OF k2, of fallback w1]
          by (auto simp: ex)
      qed
    qed
  next
    case S2
    obtain w c where w: "slow_loop p2 c1 = Inr w" using sl2 [of c1] by blast
    have x: "execute OptionalAccess p1 Undefined v = Inr c1"
      using S2 m1 wc1 by (simp add: ex call_turbo_function)
    have "slow_loop p2 w1 = Inr w \<or> (nullish w1 \<and> nullish c1)"
      using wc1 w by auto
    then show ?thesis using S2 m m2 x w wc1
      by (auto simp: ex slow_loop_append slow_loop_nullish coalesce_def)
  next
    case bad
    then have "length p1 \<le> 5 \<and> (\<forall>x\<in>set p1. plain_item x)" "length p2 \<le> 5 \<and> (\<forall>x\<in>set p2. plain_item x)"
      using m1 m2 select_mode_Turbo by blast+
    then have "\<not> (50 < length (p1 @ p2) \<or> (\<exists>x\<in>set (p1 @ p2). forces_slow x))"
      by (auto simp: plain_item_iff)
    moreover have "find invalid_item (p1 @ p2) = None"
      using m by (auto simp: select_mode_eq split: option.splits)
    ultimately have False using m bad by (simp add: select_mode_eq split: if_splits)
    then show ?thesis ..
  next
    case bad2
    then have "length (p1 @ p2) \<le> 5 \<and> (\<forall>x\<in>set (p1 @ p2). plain_item x)"
      using m select_mode_Turbo [of "p1 @ p2"] by simp
    then have "length p1 \<le> 5 \<and> (\<forall>x\<in>set p1. plain_item x)"
      "length p2 \<le> 5 \<and> (\<forall>x\<in>set p2. plain_item x)"
      by auto
    then have "select_mode p1 = Inr Turbo" "select_mode p2 = Inr Turbo"
      using select_mode_Turbo by blast+
    then have False using bad2 m1 m2 by auto
    then show ?thesis ..
  qed
qed


lemma execute_any:
  assumes "select_mode p = Inr m" and "m \<noteq> Middle" and "execute tg p f v = Inr r"
  shows "execute OptionalAccess p f v = Inr r"
  using assms call_turbo_function_any [of tg p f v r]
  by (cases m) (simp_all add: execute_simps)

lemma execute_short:
  assumes "select_mode p = Inr m" and "tg = OptionalAccess \<or> (m = Turbo \<longrightarrow> length p \<le> 2)"
  shows "execute tg p f v = execute OptionalAccess p f v"
proof (cases "tg = OptionalAccess")
  case True
  then show ?thesis by simp
next
  case False
  then show ?thesis using assms turbo_function_short [of p tg f]
    by (cases m) (simp_all add: execute_simps)
qed

lemma fusion_agrees:
  assumes m1: "select_mode p1 = Inr m1" and m2: "select_mode p2 = Inr m2"
      and m: "select_mode (p1 @ p2) = Inr m"
      and nm: "m1 \<noteq> Middle" "m2 \<noteq> Middle" "m \<noteq> Middle"
      and e: "execute tg p1 Undefined v = Inr x" "execute tg p2 fallback x = Inr r"
        "execute tg (p1 @ p2) fallback v = Inr r'"
  shows "r' = (if r = Null \<and> fallback = Undefined \<and> m = Slow then Undefined else r)"
proof -
  have o: "execute OptionalAccess p1 Undefined v = Inr x"
    "execute OptionalAccess p2 fallback x = Inr r"
    "execute OptionalAccess (p1 @ p2) fallback v = Inr r'"
    using execute_any [OF m1 nm(1) e(1)] execute_any [OF m2 nm(2) e(2)]
      execute_any [OF m nm(3) e(3)] by simp_all
  obtain x0 r0 where "execute OptionalAccess p1 Undefined v = Inr x0"
      "execute OptionalAccess p2 fallback x0 = Inr r0"
      "execute OptionalAccess (p1 @ p2) fallback v
         = Inr (if r0 = Null \<and> fallback = Undefined \<and> m = Slow then Undefined else r0)"
    using fusion_semantics [OF m1 m2 m nm, of v fallback] by blast
  then show ?thesis using o by simp
qed

lemma fusion_returns:
  assumes m1: "select_mode p1 = Inr m1" and m2: "select_mode p2 = Inr m2"
      and m: "select_mode (p1 @ p2) = Inr m"
      and nm: "m1 \<noteq> Middle" "m2 \<noteq> Middle" "m \<noteq> Middle"
      and s: "tg = OptionalAccess
               \<or> ((m1 = Turbo \<longrightarrow> length p1 \<le> 2) \<and> (m2 = Turbo \<longrightarrow> length p2 \<le> 2)
                  \<and> (m = Turbo \<longrightarrow> length (p1 @ p2) \<le> 2))"
  shows "\<exists>x r. execute tg p1 Undefined v = Inr x \<and> execute tg p2 fallback x = Inr r
           \<and> execute tg (p1 @ p2) fallback v
               = Inr (if r = Null \<and> fallback = Undefined \<and> m = Slow then Undefined else r)"
proof -
  have "execute tg p1 f u = execute OptionalAccess p1 f u" for f u
    using s by (intro execute_short [OF m1]) blast
  moreover have "execute tg p2 f u = execute OptionalAccess p2 f u" for f u
    using s by (intro execute_short [OF m2]) blast
  moreover have "execute tg (p1 @ p2) f u = execute OptionalAccess (p1 @ p2) f u" for f u
    using s by (intro execute_short [OF m]) blast
  ultimately show ?thesis using fusion_semantics [OF m1 m2 m nm, of v fallback] by simp
qed

lemma execute_accessor:
  "accessor_for tg p f = Inr fn \<Longrightarrow> execute tg p f v = call fn v"
  by (simp add: execute_def)

lemma optimize_unfused:
  assumes "\<forall>dep. getDep0 this = Access dep \<longrightarrow> step_fallback dep \<noteq> Undefined"
  shows "optimize tg this st =
           (case constructDestructureFunction tg (step_path this) (step_fallback this)
                   (SetUnbatchedExecute this) st of
              Inl err \<Rightarrow> Inl err
            | Inr st' \<Rightarrow> Inr (this, st'))"
  using assms by (cases "getDep0 this") (simp_all add: optimize_def)

lemma optimize_fused:
  assumes "getDep0 this = Access dep" and "step_fallback dep = Undefined"
  shows "optimize tg this st =
           Inr (AccessStep (getDep0 dep) (step_path dep @ step_path this) (step_fallback this), st)"
  using assms by (simp add: optimize_def access_def)

lemma construct_returns:
  assumes "\<forall>x\<in>set path. \<not> invalid_item x"
  shows "\<exists>st'. constructDestructureFunction tg path fallback cb st = Inr st'"
proof -
  obtain m where m: "select_mode path = Inr m"
    using assms select_mode_isl [of path] by (cases "select_mode path") auto
  show ?thesis
  proof (cases m)
    case Turbo
    then have "\<forall>x\<in>set path. plain_item x" using m select_mode_Turbo by blast
    then have "\<not> isl (construct_turbo tg path fallback cb st)" by (rule construct_turbo_no_error)
    then show ?thesis using m Turbo
      by (cases "construct_turbo tg path fallback cb st")
        (simp_all add: constructDestructureFunction_def)
  qed (use m in \<open>simp_all add: constructDestructureFunction_def\<close>)
qed

lemma construct_invalid:
  "find invalid_item path = Some x
     \<Longrightarrow> constructDestructureFunction tg path fallback cb st = Inl (InvalidPathItem x path)"
  by (simp add: constructDestructureFunction_def select_mode_eq)

text \<open>
  C3 (amended). Let the sole dependency of an \<^verbatim>\<open>AccessStep\<close> be an \<^verbatim>\<open>AccessStep\<close>
  with no fallback. Then:

  \<^item> \<^verbatim>\<open>optimize\<close> returns a single \<^verbatim>\<open>AccessStep\<close> on the grandparent, whose path is the
    parent's path and then the child's, with the child's fallback, and leaves the caches
    as they are.
  \<^item> Let none of the two paths and their concatenation be compiled in middle mode, and let
    each of the three be requested, by the callback \<^verbatim>\<open>optimize\<close> passes for its step, in a
    state the module can reach in which, if the path is compiled in turbo mode, nothing is
    cached or in progress under its signature. Then each request is answered with a
    function, and for every value on which the parent's function, then the child's, and
    the fused step's function return, the fused step's function returns what the pair
    returns, with one exception: when the child has no fallback, the concatenation is
    walked slowly and the pair returns \<^verbatim>\<open>null\<close>, the fused step returns \<^verbatim>\<open>undefined\<close>.
    All three return on every value when the template library writes optional accesses,
    or when each of the three paths that is compiled in turbo mode has at most two items.
  \<^item> When the grandparent is not itself an \<^verbatim>\<open>AccessStep\<close> with no fallback, \<^verbatim>\<open>optimize\<close>
    on the fused step, in any state, requests its function with the concatenated path and
    returns the fused step itself when no item of the path is invalid; it throws the
    construction error for the first invalid item otherwise.
\<close>

theorem C3_access_fusion:
  assumes "getDep0 this = Access dep" and "step_fallback dep = Undefined"
  shows "optimize tg this st = Inr ((AccessStep (getDep0 dep) (step_path dep @ step_path this) (step_fallback this)), st)
     \<and> (\<forall>m1 m2 m evs1 evs2 evs3.
        select_mode (step_path dep) = Inr m1 \<and> select_mode (step_path this) = Inr m2
        \<and> select_mode (step_path dep @ step_path this) = Inr m
        \<and> m1 \<noteq> Middle \<and> m2 \<noteq> Middle \<and> m \<noteq> Middle
        \<and> (m1 = Turbo \<longrightarrow> turbo_miss (run tg evs1) (step_path dep))
        \<and> (m2 = Turbo \<longrightarrow> turbo_miss (run tg evs2) (step_path this))
        \<and> (m = Turbo \<longrightarrow> turbo_miss (run tg evs3) (step_path dep @ step_path this)) \<longrightarrow>
        (\<exists>f1 f2 f3.
            delivered tg (run tg evs1) (step_path dep) Undefined (SetUnbatchedExecute dep) f1
          \<and> delivered tg (run tg evs2) (step_path this) (step_fallback this)
                (SetUnbatchedExecute this) f2
          \<and> delivered tg (run tg evs3) (step_path dep @ step_path this) (step_fallback this)
                (SetUnbatchedExecute (AccessStep (getDep0 dep) (step_path dep @ step_path this) (step_fallback this))) f3
          \<and> (\<forall>v x r r'. call f1 v = Inr x \<and> call f2 x = Inr r \<and> call f3 v = Inr r' \<longrightarrow>
                r' = (if r = Null \<and> step_fallback this = Undefined \<and> m = Slow then Undefined else r))
          \<and> (tg = OptionalAccess
               \<or> ((m1 = Turbo \<longrightarrow> length (step_path dep) \<le> 2)
                  \<and> (m2 = Turbo \<longrightarrow> length (step_path this) \<le> 2)
                  \<and> (m = Turbo \<longrightarrow> length (step_path dep @ step_path this) \<le> 2)) \<longrightarrow>
               (\<forall>v. \<exists>x r. call f1 v = Inr x \<and> call f2 x = Inr r
                  \<and> call f3 v = Inr (if r = Null \<and> step_fallback this = Undefined \<and> m = Slow then Undefined else r)))))
     \<and> ((\<forall>g. getDep0 dep = Access g \<longrightarrow> step_fallback g \<noteq> Undefined) \<longrightarrow>
        (\<forall>st1. optimize tg (AccessStep (getDep0 dep) (step_path dep @ step_path this) (step_fallback this)) st1
             = (case constructDestructureFunction tg (step_path dep @ step_path this) (step_fallback this)
                       (SetUnbatchedExecute (AccessStep (getDep0 dep) (step_path dep @ step_path this) (step_fallback this))) st1 of
                  Inl err \<Rightarrow> Inl err
                | Inr st2 \<Rightarrow> Inr ((AccessStep (getDep0 dep) (step_path dep @ step_path this) (step_fallback this)), st2))
           \<and> ((\<forall>x\<in>set (step_path dep @ step_path this). \<not> invalid_item x) \<longrightarrow>
              (\<exists>st2. optimize tg (AccessStep (getDep0 dep) (step_path dep @ step_path this) (step_fallback this)) st1 = Inr ((AccessStep (getDep0 dep) (step_path dep @ step_path this) (step_fallback this)), st2)))
           \<and> (\<forall>x. find invalid_item (step_path dep @ step_path this) = Some x \<longrightarrow>
              optimize tg (AccessStep (getDep0 dep) (step_path dep @ step_path this) (step_fallback this)) st1 = Inl (InvalidPathItem x (step_path dep @ step_path this)))))"
proof (intro conjI)
  show "optimize tg this st = Inr ((AccessStep (getDep0 dep) (step_path dep @ step_path this) (step_fallback this)), st)"
    using assms by (rule optimize_fused)
next
  show "(\<forall>m1 m2 m evs1 evs2 evs3.
        select_mode (step_path dep) = Inr m1 \<and> select_mode (step_path this) = Inr m2
        \<and> select_mode (step_path dep @ step_path this) = Inr m
        \<and> m1 \<noteq> Middle \<and> m2 \<noteq> Middle \<and> m \<noteq> Middle
        \<and> (m1 = Turbo \<longrightarrow> turbo_miss (run tg evs1) (step_path dep))
        \<and> (m2 = Turbo \<longrightarrow> turbo_miss (run tg evs2) (step_path this))
        \<and> (m = Turbo \<longrightarrow> turbo_miss (run tg evs3) (step_path dep @ step_path this)) \<longrightarrow>
        (\<exists>f1 f2 f3.
            delivered tg (run tg evs1) (step_path dep) Undefined (SetUnbatchedExecute dep) f1
          \<and> delivered tg (run tg evs2) (step_path this) (step_fallback this)
                (SetUnbatchedExecute this) f2
          \<and> delivered tg (run tg evs3) (step_path dep @ step_path this) (step_fallback this)
                (SetUnbatchedExecute (AccessStep (getDep0 dep) (step_path dep @ step_path this) (step_fallback this))) f3
          \<and> (\<forall>v x r r'. call f1 v = Inr x \<and> call f2 x = Inr r \<and> call f3 v = Inr r' \<longrightarrow>
                r' = (if r = Null \<and> step_fallback this = Undefined \<and> m = Slow then Undefined else r))
          \<and> (tg = OptionalAccess
               \<or> ((m1 = Turbo \<longrightarrow> length (step_path dep) \<le> 2)
                  \<and> (m2 = Turbo \<longrightarrow> length (step_path this) \<le> 2)
                  \<and> (m = Turbo \<longrightarrow> length (step_path dep @ step_path this) \<le> 2)) \<longrightarrow>
               (\<forall>v. \<exists>x r. call f1 v = Inr x \<and> call f2 x = Inr r
                  \<and> call f3 v = Inr (if r = Null \<and> step_fallback this = Undefined \<and> m = Slow then Undefined else r)))))"
  proof (intro allI impI)
    fix m1 m2 m evs1 evs2 evs3
    assume a: "select_mode (step_path dep) = Inr m1 \<and> select_mode (step_path this) = Inr m2
        \<and> select_mode (step_path dep @ step_path this) = Inr m
        \<and> m1 \<noteq> Middle \<and> m2 \<noteq> Middle \<and> m \<noteq> Middle
        \<and> (m1 = Turbo \<longrightarrow> turbo_miss (run tg evs1) (step_path dep))
        \<and> (m2 = Turbo \<longrightarrow> turbo_miss (run tg evs2) (step_path this))
        \<and> (m = Turbo \<longrightarrow> turbo_miss (run tg evs3) (step_path dep @ step_path this))"
    then have m1: "select_mode (step_path dep) = Inr m1"
        and m2: "select_mode (step_path this) = Inr m2"
        and m: "select_mode (step_path dep @ step_path this) = Inr m"
        and nm: "m1 \<noteq> Middle" "m2 \<noteq> Middle" "m \<noteq> Middle"
        and miss1: "m1 = Turbo \<longrightarrow> turbo_miss (run tg evs1) (step_path dep)"
        and miss2: "m2 = Turbo \<longrightarrow> turbo_miss (run tg evs2) (step_path this)"
        and miss3: "m = Turbo \<longrightarrow> turbo_miss (run tg evs3) (step_path dep @ step_path this)"
      by simp_all
    obtain f1 where a1: "accessor_for tg (step_path dep) Undefined = Inr f1"
        and d1: "delivered tg (run tg evs1) (step_path dep) Undefined (SetUnbatchedExecute dep) f1"
      using delivered_accessor_for [OF consistent_run m1 nm(1) miss1] by blast
    obtain f2 where a2: "accessor_for tg (step_path this) (step_fallback this) = Inr f2"
        and d2: "delivered tg (run tg evs2) (step_path this) (step_fallback this)
                  (SetUnbatchedExecute this) f2"
      using delivered_accessor_for [OF consistent_run m2 nm(2) miss2] by blast
    obtain f3 where a3: "accessor_for tg (step_path dep @ step_path this) (step_fallback this) = Inr f3"
        and d3: "delivered tg (run tg evs3) (step_path dep @ step_path this) (step_fallback this)
                  (SetUnbatchedExecute (AccessStep (getDep0 dep) (step_path dep @ step_path this) (step_fallback this))) f3"
      using delivered_accessor_for [OF consistent_run m nm(3) miss3] by blast
    have agree: "\<forall>v x r r'. call f1 v = Inr x \<and> call f2 x = Inr r \<and> call f3 v = Inr r' \<longrightarrow>
                r' = (if r = Null \<and> step_fallback this = Undefined \<and> m = Slow then Undefined else r)"
    proof (intro allI impI)
      fix v x r r'
      assume c: "call f1 v = Inr x \<and> call f2 x = Inr r \<and> call f3 v = Inr r'"
      have "execute tg (step_path dep) Undefined v = Inr x"
        "execute tg (step_path this) (step_fallback this) x = Inr r"
        "execute tg (step_path dep @ step_path this) (step_fallback this) v = Inr r'"
        using c
        by (simp_all add: execute_accessor [OF a1] execute_accessor [OF a2]
            execute_accessor [OF a3])
      then show "r' = (if r = Null \<and> step_fallback this = Undefined \<and> m = Slow then Undefined else r)"
        by (rule fusion_agrees [OF m1 m2 m nm])
    qed
    have returns: "tg = OptionalAccess
               \<or> ((m1 = Turbo \<longrightarrow> length (step_path dep) \<le> 2)
                  \<and> (m2 = Turbo \<longrightarrow> length (step_path this) \<le> 2)
                  \<and> (m = Turbo \<longrightarrow> length (step_path dep @ step_path this) \<le> 2)) \<longrightarrow>
               (\<forall>v. \<exists>x r. call f1 v = Inr x \<and> call f2 x = Inr r
                  \<and> call f3 v = Inr (if r = Null \<and> step_fallback this = Undefined \<and> m = Slow then Undefined else r))"
    proof (intro impI allI)
      fix v
      assume s: "tg = OptionalAccess
               \<or> ((m1 = Turbo \<longrightarrow> length (step_path dep) \<le> 2)
                  \<and> (m2 = Turbo \<longrightarrow> length (step_path this) \<le> 2)
                  \<and> (m = Turbo \<longrightarrow> length (step_path dep @ step_path this) \<le> 2))"
      show "\<exists>x r. call f1 v = Inr x \<and> call f2 x = Inr r
                  \<and> call f3 v = Inr (if r = Null \<and> step_fallback this = Undefined \<and> m = Slow then Undefined else r)"
        using fusion_returns [OF m1 m2 m nm s, of v "step_fallback this"]
        by (simp add: execute_accessor [OF a1] execute_accessor [OF a2] execute_accessor [OF a3])
    qed
    show "(\<exists>f1 f2 f3.
            delivered tg (run tg evs1) (step_path dep) Undefined (SetUnbatchedExecute dep) f1
          \<and> delivered tg (run tg evs2) (step_path this) (step_fallback this)
                (SetUnbatchedExecute this) f2
          \<and> delivered tg (run tg evs3) (step_path dep @ step_path this) (step_fallback this)
                (SetUnbatchedExecute (AccessStep (getDep0 dep) (step_path dep @ step_path this) (step_fallback this))) f3
          \<and> (\<forall>v x r r'. call f1 v = Inr x \<and> call f2 x = Inr r \<and> call f3 v = Inr r' \<longrightarrow>
                r' = (if r = Null \<and> step_fallback this = Undefined \<and> m = Slow then Undefined else r))
          \<and> (tg = OptionalAccess
               \<or> ((m1 = Turbo \<longrightarrow> length (step_path dep) \<le> 2)
                  \<and> (m2 = Turbo \<longrightarrow> length (step_path this) \<le> 2)
                  \<and> (m = Turbo \<longrightarrow> length (step_path dep @ step_path this) \<le> 2)) \<longrightarrow>
               (\<forall>v. \<exists>x r. call f1 v = Inr x \<and> call f2 x = Inr r
                  \<and> call f3 v = Inr (if r = Null \<and> step_fallback this = Undefined \<and> m = Slow then Undefined else r))))"
      using d1 d2 d3 agree returns by blast
  qed
next
  show "((\<forall>g. getDep0 dep = Access g \<longrightarrow> step_fallback g \<noteq> Undefined) \<longrightarrow>
        (\<forall>st1. optimize tg (AccessStep (getDep0 dep) (step_path dep @ step_path this) (step_fallback this)) st1
             = (case constructDestructureFunction tg (step_path dep @ step_path this) (step_fallback this)
                       (SetUnbatchedExecute (AccessStep (getDep0 dep) (step_path dep @ step_path this) (step_fallback this))) st1 of
                  Inl err \<Rightarrow> Inl err
                | Inr st2 \<Rightarrow> Inr ((AccessStep (getDep0 dep) (step_path dep @ step_path this) (step_fallback this)), st2))
           \<and> ((\<forall>x\<in>set (step_path dep @ step_path this). \<not> invalid_item x) \<longrightarrow>
              (\<exists>st2. optimize tg (AccessStep (getDep0 dep) (step_path dep @ step_path this) (step_fallback this)) st1 = Inr ((AccessStep (getDep0 dep) (step_path dep @ step_path this) (step_fallback this)), st2)))
           \<and> (\<forall>x. find invalid_item (step_path dep @ step_path this) = Some x \<longrightarrow>
              optimize tg (AccessStep (getDep0 dep) (step_path dep @ step_path this) (step_fallback this)) st1 = Inl (InvalidPathItem x (step_path dep @ step_path this)))))"
  proof (intro impI allI conjI)
    fix st1
    assume g: "\<forall>g. getDep0 dep = Access g \<longrightarrow> step_fallback g \<noteq> Undefined"
    then show eq: "optimize tg (AccessStep (getDep0 dep) (step_path dep @ step_path this) (step_fallback this)) st1
             = (case constructDestructureFunction tg (step_path dep @ step_path this) (step_fallback this)
                       (SetUnbatchedExecute (AccessStep (getDep0 dep) (step_path dep @ step_path this) (step_fallback this))) st1 of
                  Inl err \<Rightarrow> Inl err
                | Inr st2 \<Rightarrow> Inr ((AccessStep (getDep0 dep) (step_path dep @ step_path this) (step_fallback this)), st2))"
      using optimize_unfused [of "AccessStep (getDep0 dep) (step_path dep @ step_path this) (step_fallback this)" tg st1]
      by simp
    {
      assume "\<forall>x\<in>set (step_path dep @ step_path this). \<not> invalid_item x"
      then obtain st2 where "constructDestructureFunction tg (step_path dep @ step_path this)
          (step_fallback this) (SetUnbatchedExecute (AccessStep (getDep0 dep) (step_path dep @ step_path this) (step_fallback this))) st1 = Inr st2"
        using construct_returns by blast
      then show "\<exists>st2. optimize tg (AccessStep (getDep0 dep) (step_path dep @ step_path this) (step_fallback this)) st1 = Inr ((AccessStep (getDep0 dep) (step_path dep @ step_path this) (step_fallback this)), st2)"
        unfolding eq by simp
    }
    {
      fix x assume "find invalid_item (step_path dep @ step_path this) = Some x"
      then have "constructDestructureFunction tg (step_path dep @ step_path this)
          (step_fallback this) (SetUnbatchedExecute (AccessStep (getDep0 dep) (step_path dep @ step_path this) (step_fallback this))) st1
          = Inl (InvalidPathItem x (step_path dep @ step_path this))"
        by (rule construct_invalid)
      then show "optimize tg (AccessStep (getDep0 dep) (step_path dep @ step_path this) (step_fallback this)) st1
          = Inl (InvalidPathItem x (step_path dep @ step_path this))"
        unfolding eq by simp
    }
  qed
qed


text \<open>
  C3 (as the claim states it). First the steps \<^verbatim>\<open>access(access(access($0, "a"), "b"), "c")\<close>:
  fusing the outer step gives a step on \<^verbatim>\<open>access($0, "a")\<close> with the path
  \<^verbatim>\<open>["b","c"]\<close>, and \<^verbatim>\<open>optimize\<close> on that fused step is not a no-op, it fuses once more.
  Then the paths \<^verbatim>\<open>[NaN]\<close> and \<^verbatim>\<open>["a"]\<close>, with no fallback, on the value
  \<^verbatim>\<open>{NaN: {a: null}}\<close>: the parent is answered with the slow walker and the child with
  the closure of \<^verbatim>\<open>access1\<close>, and the pair returns \<^verbatim>\<open>null\<close>; the fused step, of the path
  \<^verbatim>\<open>[NaN, "a"]\<close>, is answered with the slow walker, which returns \<^verbatim>\<open>undefined\<close>.
\<close>

theorem C3_fusion_counterexample:
  "optimize PlainAccess
       (AccessStep (Access (AccessStep (Access (AccessStep (OtherStep 0) [Str ''a''] Undefined))
                                   [Str ''b''] Undefined)) [Str ''c''] Undefined) initial
     = Inr (AccessStep (Access (AccessStep (OtherStep 0) [Str ''a''] Undefined))
              [Str ''b'', Str ''c''] Undefined, initial)
   \<and> optimize PlainAccess
       (AccessStep (Access (AccessStep (OtherStep 0) [Str ''a''] Undefined))
                 [Str ''b'', Str ''c''] Undefined) initial
     = Inr (AccessStep (OtherStep 0) [Str ''a'', Str ''b'', Str ''c''] Undefined, initial)
   \<and> optimize PlainAccess
       (AccessStep (Access (AccessStep (OtherStep 0) [Num NaN] Undefined)) [Str ''a''] Undefined)
       initial
     = Inr (AccessStep (OtherStep 0) [Num NaN, Str ''a''] Undefined, initial)
   \<and> map_sum id calls
        (constructDestructureFunction PlainAccess [Num NaN] Undefined
           (SetUnbatchedExecute (AccessStep (OtherStep 0) [Num NaN] Undefined)) initial)
       = Inr [(SetUnbatchedExecute (AccessStep (OtherStep 0) [Num NaN] Undefined),
               SlowlyExtractValueAtPath [Num NaN] Undefined)]
   \<and> map_sum id calls
        (constructDestructureFunction PlainAccess [Str ''a''] Undefined
           (SetUnbatchedExecute
              (AccessStep (Access (AccessStep (OtherStep 0) [Num NaN] Undefined))
                 [Str ''a''] Undefined)) initial)
       = Inr [(SetUnbatchedExecute
                 (AccessStep (Access (AccessStep (OtherStep 0) [Num NaN] Undefined))
                    [Str ''a''] Undefined),
               QuicklyAccessKey1 (Str ''a''))]
   \<and> map_sum id calls
        (constructDestructureFunction PlainAccess [Num NaN, Str ''a''] Undefined
           (SetUnbatchedExecute (AccessStep (OtherStep 0) [Num NaN, Str ''a''] Undefined)) initial)
       = Inr [(SetUnbatchedExecute (AccessStep (OtherStep 0) [Num NaN, Str ''a''] Undefined),
               SlowlyExtractValueAtPath [Num NaN, Str ''a''] Undefined)]
   \<and> call (SlowlyExtractValueAtPath [Num NaN] Undefined)
        (Obj 0 [(KStr ''NaN'', Obj 1 [(KStr ''a'', Null)])])
       = Inr (Obj 1 [(KStr ''a'', Null)])
   \<and> call (QuicklyAccessKey1 (Str ''a'')) (Obj 1 [(KStr ''a'', Null)]) = Inr Null
   \<and> call (SlowlyExtractValueAtPath [Num NaN, Str ''a''] Undefined)
        (Obj 0 [(KStr ''NaN'', Obj 1 [(KStr ''a'', Null)])])
       = Inr Undefined"
  by (simp add: optimize_def access_def select_mode_def initial_mode_def
      constructDestructureFunction_def construct_turbo_def lru_get_def initial_def
      done_hyper_def hyper_array_def invoke_def access1_def opt_get_def get_prop_def
      coalesce_def)

theorem C3_access_fusion_witness:
  "optimize PlainAccess
       (AccessStep (Access (AccessStep (OtherStep 0) [Str ''a''] Undefined))
               [Str ''b''] (Num (Fin 7))) initial
     = Inr (AccessStep (OtherStep 0) [Str ''a'', Str ''b''] (Num (Fin 7)), initial)
   \<and> select_mode [Str ''a''] = Inr Turbo \<and> select_mode [Str ''b''] = Inr Turbo
   \<and> select_mode [Str ''a'', Str ''b''] = Inr Turbo
   \<and> turbo_miss (run PlainAccess [Request [Str ''x''] Undefined (Extern 9)]) [Str ''a'']
   \<and> turbo_miss (run PlainAccess [Request [Str ''x''] Undefined (Extern 9)]) [Str ''b'']
   \<and> turbo_miss (run PlainAccess [Request [Str ''x''] Undefined (Extern 9)])
        [Str ''a'', Str ''b'']
   \<and> delivered PlainAccess (run PlainAccess [Request [Str ''x''] Undefined (Extern 9)])
        [Str ''a''] Undefined
        (SetUnbatchedExecute (AccessStep (OtherStep 0) [Str ''a''] Undefined))
        (QuicklyAccessKey1 (Str ''a''))
   \<and> delivered PlainAccess (run PlainAccess [Request [Str ''x''] Undefined (Extern 9)])
        [Str ''b''] (Num (Fin 7))
        (SetUnbatchedExecute
           (AccessStep (Access (AccessStep (OtherStep 0) [Str ''a''] Undefined))
              [Str ''b''] (Num (Fin 7))))
        (QuicklyAccessKey1WithFallback (Str ''b'') (Num (Fin 7)))
   \<and> delivered PlainAccess (run PlainAccess [Request [Str ''x''] Undefined (Extern 9)])
        [Str ''a'', Str ''b''] (Num (Fin 7))
        (SetUnbatchedExecute (AccessStep (OtherStep 0) [Str ''a'', Str ''b''] (Num (Fin 7))))
        (QuicklyAccessKey2WithFallback (Str ''a'') (Str ''b'') (Num (Fin 7)))
   \<and> call (QuicklyAccessKey1 (Str ''a'')) (Obj 0 [(KStr ''a'', Obj 1 [(KStr ''b'', Num (Fin 5))])])
       = Inr (Obj 1 [(KStr ''b'', Num (Fin 5))])
   \<and> call (QuicklyAccessKey1WithFallback (Str ''b'') (Num (Fin 7)))
        (Obj 1 [(KStr ''b'', Num (Fin 5))]) = Inr (Num (Fin 5))
   \<and> call (QuicklyAccessKey2WithFallback (Str ''a'') (Str ''b'') (Num (Fin 7)))
        (Obj 0 [(KStr ''a'', Obj 1 [(KStr ''b'', Num (Fin 5))])]) = Inr (Num (Fin 5))
   \<and> call (QuicklyAccessKey1 (Str ''a'')) (Obj 0 []) = Inr Undefined
   \<and> call (QuicklyAccessKey1WithFallback (Str ''b'') (Num (Fin 7))) Undefined = Inr (Num (Fin 7))
   \<and> call (QuicklyAccessKey2WithFallback (Str ''a'') (Str ''b'') (Num (Fin 7))) (Obj 0 [])
       = Inr (Num (Fin 7))
   \<and> map_sum id (\<lambda>(s, st2). (s, unbatchedExecute (run_batch st2) s
                                   (Obj 0 [(KStr ''a'', Obj 1 [(KStr ''b'', Num (Fin 5))])])))
        (optimize PlainAccess (AccessStep (OtherStep 0) [Str ''a'', Str ''b''] (Num (Fin 7)))
           (run PlainAccess [Request [Str ''x''] Undefined (Extern 9)]))
       = Inr (AccessStep (OtherStep 0) [Str ''a'', Str ''b''] (Num (Fin 7)), Inr (Num (Fin 5)))"
proof -
  let ?parent = "AccessStep (OtherStep 0) [Str ''a''] Undefined"
  let ?child = "AccessStep (Access ?parent) [Str ''b''] (Num (Fin 7))"
  let ?fused = "AccessStep (OtherStep 0) [Str ''a'', Str ''b''] (Num (Fin 7))"
  let ?evs = "[Request [Str ''x''] Undefined (Extern 9)]"
  let ?v = "Obj 0 [(KStr ''a'', Obj 1 [(KStr ''b'', Num (Fin 5))])]"
  have sm: "select_mode [Str ''x''] = Inr Turbo" "select_mode [Str ''a''] = Inr Turbo"
    "select_mode [Str ''b''] = Inr Turbo" "select_mode [Str ''a'', Str ''b''] = Inr Turbo"
    by (simp_all add: select_mode_def initial_mode_def)
  have st: "run PlainAccess ?evs
      = initial\<lparr> hyperArrays := [0 \<mapsto> [Extern 9]], nextRef := Suc 0,
                 makeDestructureHyperCache := [(''x'', QuicklyAccessKey1 (Str ''x''))],
                 calls := [(Extern 9, QuicklyAccessKey1 (Str ''x''))] \<rparr>"
    by (simp add: run_def constructDestructureFunction_def sm construct_turbo_def lru_get_def
        initial_def done_hyper_eq hyper_array_def lru_set_def maxLength_def access1_def)
  have miss: "turbo_miss (run PlainAccess ?evs) [Str ''a'']"
    "turbo_miss (run PlainAccess ?evs) [Str ''b'']"
    "turbo_miss (run PlainAccess ?evs) [Str ''a'', Str ''b'']"
    unfolding st by (simp_all add: turbo_miss_def initial_def)
  have d: "getDep0 ?child = Access ?parent" "step_fallback ?parent = Undefined" by simp_all
  note th = C3_access_fusion [OF d, of PlainAccess initial]
  have fuse: "optimize PlainAccess ?child initial = Inr (?fused, initial)"
    using th [THEN conjunct1] by simp
  have tf: "turbo_function PlainAccess [Str ''a''] Undefined = QuicklyAccessKey1 (Str ''a'')"
    "turbo_function PlainAccess [Str ''b''] (Num (Fin 7))
       = QuicklyAccessKey1WithFallback (Str ''b'') (Num (Fin 7))"
    "turbo_function PlainAccess [Str ''a'', Str ''b''] (Num (Fin 7))
       = QuicklyAccessKey2WithFallback (Str ''a'') (Str ''b'') (Num (Fin 7))"
    by (simp_all add: turbo_function_def access1_def access2_def)
  have del: "delivered PlainAccess (run PlainAccess ?evs) [Str ''a''] Undefined
        (SetUnbatchedExecute ?parent) (QuicklyAccessKey1 (Str ''a''))"
      "delivered PlainAccess (run PlainAccess ?evs) [Str ''b''] (Num (Fin 7))
        (SetUnbatchedExecute ?child) (QuicklyAccessKey1WithFallback (Str ''b'') (Num (Fin 7)))"
      "delivered PlainAccess (run PlainAccess ?evs) [Str ''a'', Str ''b''] (Num (Fin 7))
        (SetUnbatchedExecute ?fused)
        (QuicklyAccessKey2WithFallback (Str ''a'') (Str ''b'') (Num (Fin 7)))"
    unfolding tf [symmetric]
    by (rule delivered_turbo [OF consistent_run sm(2) miss(1)]
        delivered_turbo [OF consistent_run sm(3) miss(2)]
        delivered_turbo [OF consistent_run sm(4) miss(3)])+
  have c: "call (QuicklyAccessKey1 (Str ''a'')) ?v = Inr (Obj 1 [(KStr ''b'', Num (Fin 5))])"
    "call (QuicklyAccessKey1WithFallback (Str ''b'') (Num (Fin 7)))
        (Obj 1 [(KStr ''b'', Num (Fin 5))]) = Inr (Num (Fin 5))"
    "call (QuicklyAccessKey2WithFallback (Str ''a'') (Str ''b'') (Num (Fin 7))) ?v
       = Inr (Num (Fin 5))"
    "call (QuicklyAccessKey1 (Str ''a'')) (Obj 0 []) = Inr Undefined"
    "call (QuicklyAccessKey1WithFallback (Str ''b'') (Num (Fin 7))) Undefined = Inr (Num (Fin 7))"
    "call (QuicklyAccessKey2WithFallback (Str ''a'') (Str ''b'') (Num (Fin 7))) (Obj 0 [])
       = Inr (Num (Fin 7))"
    by (simp_all add: opt_get_def get_prop_def coalesce_def)
  have u: "map_sum id (\<lambda>(s, st2). (s, unbatchedExecute (run_batch st2) s ?v))
        (optimize PlainAccess ?fused (run PlainAccess ?evs))
       = Inr (?fused, Inr (Num (Fin 5)))"
    unfolding st
    by (simp add: optimize_def constructDestructureFunction_def sm construct_turbo_def
        lru_get_def initial_def done_hyper_eq hyper_array_def lru_set_def maxLength_def
        access2_def run_batch_def unbatchedExecute_def opt_get_def get_prop_def coalesce_def)
  show ?thesis
    by (intro conjI) (rule fuse sm miss del c u)+
qed

text \<open>
  If the library writes plain accesses, fusion can turn a pair that returns into a step
  that throws: the paths \<^verbatim>\<open>["a","b"]\<close> and \<^verbatim>\<open>["c"]\<close>, with no fallback, on \<^verbatim>\<open>{}\<close>. The
  pair is two closures with optional accesses and returns \<^verbatim>\<open>undefined\<close>; the fused path
  has three items and its function is compiled from the generated source.
\<close>

lemma fusion_plain_access_throws:
  "call (turbo_function PlainAccess [Str ''a'', Str ''b''] Undefined) (Obj 0 []) = Inr Undefined
   \<and> call (turbo_function PlainAccess [Str ''c''] Undefined) Undefined = Inr Undefined
   \<and> call (turbo_function PlainAccess [Str ''a'', Str ''b'', Str ''c''] Undefined) (Obj 0 [])
       = Inl TypeError
   \<and> call (turbo_function OptionalAccess [Str ''a'', Str ''b'', Str ''c''] Undefined) (Obj 0 [])
       = Inr Undefined"
  by (simp add: turbo_function_def turbo_source_def join_onto_def access1_def access2_def
      opt_get_def get_prop_def coalesce_def)


section \<open>Properties of \<^verbatim>\<open>deduplicate\<close>\<close>

text \<open>Two runs of characters of a set, each ended by a character outside it.\<close>

lemma terminated_runs:
  assumes "set xs \<subseteq> D" and "set ys \<subseteq> D" and "c \<notin> D" and "c' \<notin> D"
      and "xs @ c # r = ys @ c' # r'"
  shows "xs = ys \<and> c = c' \<and> r = r'"
  using assms
proof (induction xs arbitrary: ys)
  case Nil
  then show ?case by (cases ys) auto
next
  case (Cons x xs)
  then show ?case by (cases ys) auto
qed

lemma of_char_hex_char: "d < 16 \<Longrightarrow> of_char (hex_char d) = (if d < 10 then 48 + d else 87 + d)"
  by (simp add: hex_char_def)

lemma hex_char_inj: "a < 16 \<Longrightarrow> b < 16 \<Longrightarrow> hex_char a = hex_char b \<Longrightarrow> a = b"
proof -
  assume a: "a < 16" and b: "b < 16" and "hex_char a = hex_char b"
  then have "(of_char (hex_char a) :: nat) = of_char (hex_char b)" by simp
  then show "a = b" using a b by (simp add: of_char_hex_char split: if_splits)
qed

lemma json_char_short:
  "short_escaped c \<Longrightarrow>
     \<exists>l. json_char c = [CHR 0x5C, l] \<and> l \<noteq> CHR ''u''
         \<and> (\<forall>d. short_escaped d \<longrightarrow> json_char d = [CHR 0x5C, l] \<longrightarrow> d = c)"
  unfolding short_escaped_def json_char_def by auto

lemma json_char_long:
  "\<not> short_escaped c \<Longrightarrow> of_char c < (32 :: nat) \<Longrightarrow>
     json_char c = [CHR 0x5C, CHR ''u'', CHR ''0'', CHR ''0'',
                    hex_char (of_char c div 16), hex_char (of_char c mod 16)]"
  unfolding short_escaped_def json_char_def by simp

lemma json_char_plain:
  "\<not> short_escaped c \<Longrightarrow> \<not> of_char c < (32 :: nat) \<Longrightarrow>
     json_char c = [c] \<and> c \<noteq> CHR 0x5C \<and> c \<noteq> CHR 0x22"
  unfolding short_escaped_def json_char_def by simp

lemma of_char_div_mod_inj:
  assumes "hex_char (of_char c div 16) = hex_char (of_char d div 16)"
      and "hex_char (of_char c mod 16) = hex_char (of_char d mod 16)"
      and "of_char c < (32 :: nat)" and "of_char d < (32 :: nat)"
  shows "c = d"
proof -
  have "(of_char c :: nat) div 16 = of_char d div 16"
    using assms by (intro hex_char_inj) simp_all
  moreover have "(of_char c :: nat) mod 16 = of_char d mod 16"
    using assms by (intro hex_char_inj) simp_all
  ultimately have "(of_char c :: nat) = of_char d" by (metis div_mult_mod_eq)
  then show ?thesis by simp
qed

lemma json_char_prefix_free:
  assumes "json_char c @ X = json_char d @ Y"
  shows "c = d \<and> X = Y"
proof -
  consider (s) "short_escaped c" | (l) "\<not> short_escaped c" "of_char c < (32 :: nat)"
    | (p) "\<not> short_escaped c" "\<not> of_char c < (32 :: nat)" by blast
  then show ?thesis
  proof cases
    case s
    then obtain l where l: "json_char c = [CHR 0x5C, l]" "l \<noteq> CHR ''u''"
        "\<forall>d. short_escaped d \<longrightarrow> json_char d = [CHR 0x5C, l] \<longrightarrow> d = c"
      using json_char_short by blast
    consider (s') "short_escaped d" | (l') "\<not> short_escaped d" "of_char d < (32 :: nat)"
      | (p') "\<not> short_escaped d" "\<not> of_char d < (32 :: nat)" by blast
    then show ?thesis
    proof cases
      case s'
      then obtain l' where l': "json_char d = [CHR 0x5C, l']"
        using json_char_short by blast
      then have "l = l'" "X = Y" using assms l by simp_all
      then show ?thesis using l l' s' by auto
    next
      case l'
      then show ?thesis using assms l json_char_long [OF l'] by simp
    next
      case p'
      then show ?thesis using assms l json_char_plain [OF p'] by auto
    qed
  next
    case l
    note cl = json_char_long [OF l]
    consider (s') "short_escaped d" | (l') "\<not> short_escaped d" "of_char d < (32 :: nat)"
      | (p') "\<not> short_escaped d" "\<not> of_char d < (32 :: nat)" by blast
    then show ?thesis
    proof cases
      case s'
      then obtain l' where l': "json_char d = [CHR 0x5C, l']" "l' \<noteq> CHR ''u''"
        using json_char_short by blast
      then show ?thesis using assms cl by simp
    next
      case l'
      then show ?thesis using assms cl json_char_long [OF l'] l(2) of_char_div_mod_inj [of c d]
        by simp
    next
      case p'
      then show ?thesis using assms cl json_char_plain [OF p'] by auto
    qed
  next
    case p
    note cp = json_char_plain [OF p]
    consider (s') "short_escaped d" | (l') "\<not> short_escaped d" "of_char d < (32 :: nat)"
      | (p') "\<not> short_escaped d" "\<not> of_char d < (32 :: nat)" by blast
    then show ?thesis
    proof cases
      case s'
      then obtain l' where l': "json_char d = [CHR 0x5C, l']"
        using json_char_short by blast
      then show ?thesis using assms cp by auto
    next
      case l'
      then show ?thesis using assms cp json_char_long [OF l'] by auto
    next
      case p'
      then show ?thesis using assms cp json_char_plain [OF p'] by auto
    qed
  qed
qed

lemma json_char_head: "\<exists>h t. json_char c = h # t \<and> h \<noteq> CHR 0x22"
proof -
  consider (s) "short_escaped c" | (l) "\<not> short_escaped c" "of_char c < (32 :: nat)"
    | (p) "\<not> short_escaped c" "\<not> of_char c < (32 :: nat)" by blast
  then show ?thesis
  proof cases
    case s
    then show ?thesis using json_char_short [of c] by auto
  next
    case l
    then show ?thesis using json_char_long [of c] by simp
  next
    case p
    then show ?thesis using json_char_plain [of c] by simp
  qed
qed

lemma quoted_body_inj:
  "concat (map json_char s) @ CHR 0x22 # r = concat (map json_char t) @ CHR 0x22 # r'
   \<Longrightarrow> s = t \<and> r = r'"
proof (induction s arbitrary: t)
  case Nil
  show ?case
  proof (cases t)
    case Nil
    then show ?thesis using Nil.prems by simp
  next
    case (Cons d t')
    obtain h tl where "json_char d = h # tl" "h \<noteq> CHR 0x22" using json_char_head by blast
    then show ?thesis using Nil.prems Cons by simp
  qed
next
  case (Cons c s)
  show ?case
  proof (cases t)
    case Nil
    obtain h tl where "json_char c = h # tl" "h \<noteq> CHR 0x22" using json_char_head by blast
    then show ?thesis using Cons.prems Nil by simp
  next
    case (Cons d t')
    then have "json_char c @ (concat (map json_char s) @ CHR 0x22 # r)
        = json_char d @ (concat (map json_char t') @ CHR 0x22 # r')"
      using Cons.prems by simp
    then have "c = d" "concat (map json_char s) @ CHR 0x22 # r = concat (map json_char t') @ CHR 0x22 # r'"
      using json_char_prefix_free by blast+
    then show ?thesis using Cons.IH [of t'] Cons by simp
  qed
qed

lemma plain_item_cases:
  assumes "plain_item x"
  obtains s where "x = Str s" | i where "x = Num (Fin i)"
proof (cases x)
  case (Num n)
  then show ?thesis using assms that by (cases n) simp_all
qed (use assms that in simp_all)

lemma json_element_inj:
  assumes "plain_item x" and "plain_item y"
      and "c = CHR '','' \<or> c = CHR '']''" and "c' = CHR '','' \<or> c' = CHR '']''"
      and "json_element x @ c # r = json_element y @ c' # r'"
  shows "x = y \<and> c = c' \<and> r = r'"
proof -
  let ?D = "insert CHR ''-'' digit_chars"
  have out: "c \<notin> ?D" "c' \<notin> ?D" "CHR 0x22 \<notin> ?D"
    using assms(3,4) by (auto simp: digit_chars_def)
  show ?thesis
  proof (rule plain_item_cases [OF assms(1)]; rule plain_item_cases [OF assms(2)])
    fix s t assume xy: "x = Str s" "y = Str t"
    then have "concat (map json_char s) @ CHR 0x22 # (c # r)
        = concat (map json_char t) @ CHR 0x22 # (c' # r')"
      using assms(5) by (simp add: json_element_def json_quote_def)
    then show ?thesis using quoted_body_inj xy by blast
  next
    fix i j assume xy: "x = Num (Fin i)" "y = Num (Fin j)"
    then have "show_int i @ c # r = show_int j @ c' # r'"
      using assms(5) by (simp add: json_element_def)
    then have "show_int i = show_int j \<and> c = c' \<and> r = r'"
      using terminated_runs [OF show_int_chars show_int_chars out(1,2)] by blast
    then show ?thesis using show_int_inj xy by blast
  next
    fix s j assume xy: "x = Str s" "y = Num (Fin j)"
    then have "CHR 0x22 # concat (map json_char s) @ CHR 0x22 # c # r = show_int j @ c' # r'"
      using assms(5) by (simp add: json_element_def json_quote_def)
    moreover obtain h tl where "show_int j = h # tl" "h \<in> ?D"
      using show_int_nonempty [of j] show_int_chars [of j] by (cases "show_int j") auto
    ultimately show ?thesis using out(3) by auto
  next
    fix i t assume xy: "x = Num (Fin i)" "y = Str t"
    then have "show_int i @ c # r = CHR 0x22 # concat (map json_char t) @ CHR 0x22 # c' # r'"
      using assms(5) by (simp add: json_element_def json_quote_def)
    moreover obtain h tl where "show_int i = h # tl" "h \<in> ?D"
      using show_int_nonempty [of i] show_int_chars [of i] by (cases "show_int i") auto
    ultimately show ?thesis using out(3) by auto
  qed
qed

lemma json_element_head:
  assumes "plain_item x"
  shows "\<exists>h t. json_element x = h # t \<and> h \<noteq> CHR '']''"
proof (rule plain_item_cases [OF assms])
  fix s assume "x = Str s"
  then show ?thesis by (simp add: json_element_def json_quote_def)
next
  fix i assume x: "x = Num (Fin i)"
  obtain h tl where "show_int i = h # tl" "h \<in> insert CHR ''-'' digit_chars"
    using show_int_nonempty [of i] show_int_chars [of i] by (cases "show_int i") auto
  then show ?thesis using x by (auto simp: json_element_def digit_chars_def)
qed

lemma join_strings_Cons:
  "join_strings (x # xs) sep = x @ (if xs = [] then [] else sep @ join_strings xs sep)"
  by (cases xs) simp_all

lemma json_elements_inj:
  assumes "\<forall>x\<in>set p. plain_item x" and "\<forall>x\<in>set q. plain_item x"
      and "join_strings (map json_element p) '','' @ CHR '']'' # r
             = join_strings (map json_element q) '','' @ CHR '']'' # r'"
  shows "p = q"
  using assms
proof (induction p arbitrary: q)
  case Nil
  show ?case
  proof (cases q)
    case (Cons y q')
    then obtain h t where "json_element y = h # t" "h \<noteq> CHR '']''"
      using json_element_head Nil.prems(2) by fastforce
    then show ?thesis using Nil.prems(3) Cons by (simp add: join_strings_Cons)
  qed simp
next
  case (Cons x p)
  show ?case
  proof (cases q)
    case Nil
    obtain h t where "json_element x = h # t" "h \<noteq> CHR '']''"
      using json_element_head Cons.prems(1) by fastforce
    then show ?thesis using Cons.prems(3) Nil by (simp add: join_strings_Cons)
  next
    case q: (Cons y q')
    define rest where "rest = (\<lambda>xs t. if xs = [] then CHR '']'' # t
        else CHR '','' # join_strings (map json_element xs) '','' @ CHR '']'' # t)"
    have px: "plain_item x" and py: "plain_item y" using Cons.prems q by simp_all
    have eq: "json_element x @ rest p r = json_element y @ rest q' r'"
      using Cons.prems(3) q unfolding rest_def
      by (cases "p = []"; cases "q' = []"; simp add: join_strings_Cons)
    obtain c u where cu: "rest p r = c # u" "c = CHR '','' \<or> c = CHR '']''"
      unfolding rest_def by (cases "p = []") simp_all
    obtain c' u' where cu': "rest q' r' = c' # u'" "c' = CHR '','' \<or> c' = CHR '']''"
      unfolding rest_def by (cases "q' = []") simp_all
    have "json_element x @ c # u = json_element y @ c' # u'" using eq cu cu' by simp
    from json_element_inj [OF px py cu(2) cu'(2) this]
    have xy: "x = y" and rest: "rest p r = rest q' r'" using cu cu' by simp_all
    have "p = q'"
    proof (cases "p = []"; cases "q' = []")
      assume "p \<noteq> []" "q' \<noteq> []"
      then have "join_strings (map json_element p) '','' @ CHR '']'' # r
          = join_strings (map json_element q') '','' @ CHR '']'' # r'"
        using rest by (simp add: rest_def)
      then show ?thesis using Cons.IH [of q'] Cons.prems q by simp
    qed (use rest in \<open>simp_all add: rest_def\<close>)
    then show ?thesis using xy q by simp
  qed
qed

lemma json_stringify_path_inj:
  assumes "\<forall>x\<in>set p. plain_item x" and "\<forall>x\<in>set q. plain_item x"
      and "json_stringify_path p = json_stringify_path q"
  shows "p = q"
proof -
  have "join_strings (map json_element p) '','' @ CHR '']'' # []
      = join_strings (map json_element q) '','' @ CHR '']'' # []"
    using assms(3) by (simp add: json_stringify_path_def json_element_def[abs_def])
  then show ?thesis using json_elements_inj [OF assms(1,2)] by blast
qed

text \<open>
  C5 (as the claim states it, at a step on \<^verbatim>\<open>$1\<close> and one peer on \<^verbatim>\<open>$2\<close>, both
  with the path \<^verbatim>\<open>["a"]\<close> and no fallback). The peer has another dependency, and
  \<^verbatim>\<open>deduplicate\<close> returns it: it compares the fallback and the serialised path only.
\<close>

theorem C5_dependency_counterexample:
  "deduplicate (AccessStep (OtherStep 1) [Str ''a''] Undefined)
     [AccessStep (OtherStep 2) [Str ''a''] Undefined]
     = [AccessStep (OtherStep 2) [Str ''a''] Undefined]
   \<and> getDep0 (AccessStep (OtherStep 2) [Str ''a''] Undefined)
       \<noteq> getDep0 (AccessStep (OtherStep 1) [Str ''a''] Undefined)"
  by (simp add: deduplicate_def)

text \<open>
  C5 (amended). For a step and peers whose paths hold strings and finite numbers only,
  \<^verbatim>\<open>deduplicate\<close> returns exactly the peers that have the step's path and a fallback
  that is \<^verbatim>\<open>===\<close> to the step's, in the order of the peers; the dependency is not
  compared. When all the peers have the step's dependency, as the peers the planner passes
  do, these are exactly the peers with the same dependency, the same path and the same
  fallback.
\<close>

theorem C5_deduplicate:
  assumes "\<forall>x\<in>set (step_path s). plain_item x"
      and "\<forall>p\<in>set peers. \<forall>x\<in>set (step_path p). plain_item x"
  shows "deduplicate s peers
           = filter (\<lambda>p. step_path p = step_path s
                        \<and> strict_eq (step_fallback p) (step_fallback s)) peers
     \<and> ((\<forall>p\<in>set peers. getDep0 p = getDep0 s) \<longrightarrow>
          deduplicate s peers
            = filter (\<lambda>p. getDep0 p = getDep0 s \<and> step_path p = step_path s
                         \<and> strict_eq (step_fallback p) (step_fallback s)) peers)"
proof -
  have same: "json_stringify_path (step_path p) = json_stringify_path (step_path s)
        \<longleftrightarrow> step_path p = step_path s" if "p \<in> set peers" for p
    using that assms json_stringify_path_inj [of "step_path p" "step_path s"] by auto
  have first: "deduplicate s peers
           = filter (\<lambda>p. step_path p = step_path s
                        \<and> strict_eq (step_fallback p) (step_fallback s)) peers"
    unfolding deduplicate_def Let_def using same by (intro filter_cong) auto
  moreover have "(\<forall>p\<in>set peers. getDep0 p = getDep0 s) \<longrightarrow>
      filter (\<lambda>p. step_path p = step_path s \<and> strict_eq (step_fallback p) (step_fallback s)) peers
        = filter (\<lambda>p. getDep0 p = getDep0 s \<and> step_path p = step_path s
                         \<and> strict_eq (step_fallback p) (step_fallback s)) peers"
    by (auto intro: filter_cong)
  ultimately show ?thesis by simp
qed

theorem C5_deduplicate_witness:
  "deduplicate (AccessStep (OtherStep 1) [Str ''a'', Num (Fin 0)] Null)
     [AccessStep (OtherStep 1) [Str ''a'', Num (Fin 0)] Null,
      AccessStep (OtherStep 1) [Str ''a'', Num (Fin 1)] Null,
      AccessStep (OtherStep 1) [Str ''a'', Num (Fin 0)] (Num (Fin 7))]
     = [AccessStep (OtherStep 1) [Str ''a'', Num (Fin 0)] Null]"
  using C5_deduplicate [of "AccessStep (OtherStep 1) [Str ''a'', Num (Fin 0)] Null"
      "[AccessStep (OtherStep 1) [Str ''a'', Num (Fin 0)] Null,
        AccessStep (OtherStep 1) [Str ''a'', Num (Fin 1)] Null,
        AccessStep (OtherStep 1) [Str ''a'', Num (Fin 0)] (Num (Fin 7))]"]
  by simp

text \<open>
  Outside the amended claim: \<^verbatim>\<open>JSON.stringify\<close> writes every symbol as \<^verbatim>\<open>null\<close>, so
  two paths that differ in a symbol are taken for the same path; and a fallback of
  \<^verbatim>\<open>NaN\<close> is not \<^verbatim>\<open>===\<close> to itself.
\<close>

lemma deduplicate_conflates_symbols:
  "deduplicate (AccessStep d [Sym 1] Undefined) [AccessStep d [Sym 2] Undefined]
     = [AccessStep d [Sym 2] Undefined]"
  by (simp add: deduplicate_def json_stringify_path_def)

lemma deduplicate_NaN_fallback:
  "deduplicate (AccessStep d [Str ''a''] (Num NaN)) [AccessStep d [Str ''a''] (Num NaN)] = []"
  by (simp add: deduplicate_def)


section \<open>The turbo tier's cache and the fallback\<close>

text \<open>
  The turbo tier's signature is \<^verbatim>\<open>path.join("|")\<close>, without the fallback, while the
  function cached under it has the fallback of the request that made it. A later request
  for the same path with another fallback is served the cached function: here the second
  caller asks for the fallback 2 and is given the function with the fallback 1.
\<close>

lemma turbo_cache_ignores_fallback:
  "calls (run PlainAccess [Request [Str ''a''] (Num (Fin 1)) (Extern 0),
                           Request [Str ''a''] (Num (Fin 2)) (Extern 1)])
     = [(Extern 0, QuicklyAccessKey1WithFallback (Str ''a'') (Num (Fin 1))),
        (Extern 1, QuicklyAccessKey1WithFallback (Str ''a'') (Num (Fin 1)))]
   \<and> call (QuicklyAccessKey1WithFallback (Str ''a'') (Num (Fin 1))) (Obj 0 []) = Inr (Num (Fin 1))"
  by (simp add: run_def constructDestructureFunction_def select_mode_def initial_mode_def
      construct_turbo_def lru_get_def lru_set_def maxLength_def initial_def done_hyper_eq
      hyper_array_def access1_def opt_get_def get_prop_def coalesce_def)


end
